theory Spec2Isabelle
  imports Complex_Main "HOL-Library.Word" "HOL-Library.Multiset"
begin

section \<open>Element values and faults\<close>

text \<open>
  The template parameter \<open>D\<close> of the library is \<open>float\<close> or \<open>double\<close>. An element is
  modelled as either the NaN sentinel or an exact real number: rounding and the
  infinities are outside the model, NaN and its propagation through arithmetic and
  comparisons are inside it.
\<close>

datatype D = NaN | Num real

fun isnan :: "D \<Rightarrow> bool" where
  "isnan NaN = True"
| "isnan (Num x) = False"

fun fadd :: "D \<Rightarrow> D \<Rightarrow> D" where
  "fadd (Num a) (Num b) = Num (a + b)"
| "fadd _ _ = NaN"

fun fsub :: "D \<Rightarrow> D \<Rightarrow> D" where
  "fsub (Num a) (Num b) = Num (a - b)"
| "fsub _ _ = NaN"

fun fmul :: "D \<Rightarrow> D \<Rightarrow> D" where
  "fmul (Num a) (Num b) = Num (a * b)"
| "fmul _ _ = NaN"

text \<open>
  A quotient by zero is an infinity or NaN in IEEE arithmetic; with no infinities in
  the model it is NaN here. No engine divides by zero behind the gate of \<open>compute\<close>.
\<close>

fun fdiv :: "D \<Rightarrow> D \<Rightarrow> D" where
  "fdiv (Num a) (Num b) = (if b = 0 then NaN else Num (a / b))"
| "fdiv _ _ = NaN"

text \<open>Comparisons with NaN are false, as in IEEE arithmetic.\<close>

fun fless :: "D \<Rightarrow> D \<Rightarrow> bool" where
  "fless (Num a) (Num b) = (a < b)"
| "fless _ _ = False"

fun feq :: "D \<Rightarrow> D \<Rightarrow> bool" where
  "feq (Num a) (Num b) = (a = b)"
| "feq _ _ = False"

fun fsqrt :: "D \<Rightarrow> D" where
  "fsqrt (Num a) = (if a < 0 then NaN else Num (sqrt a))"
| "fsqrt NaN = NaN"

text \<open>\<open>pow(x, 1.5)\<close>: NaN for a negative base, as the C library defines it.\<close>

fun fpow15 :: "D \<Rightarrow> D" where
  "fpow15 (Num a) = (if a < 0 then NaN else Num (a powr (3 / 2)))"
| "fpow15 NaN = NaN"

text \<open>\<open>size_t\<close> is taken as 64 bits wide; its arithmetic wraps around.\<close>

type_synonym size_t = "64 word"

definition of_size_t :: "size_t \<Rightarrow> D" where
  "of_size_t n = Num (real (unat n))"

definition EPSILON :: D where
  "EPSILON = Num (1 / 10 ^ 16)"

text \<open>
  A failed \<open>assert\<close> aborts the program. Reading the front of an empty container,
  indexing a vector out of range and dereferencing an end iterator are undefined
  behaviour in C++; the model stops there with a fault of its own.
\<close>

datatype fault = AssertionFailed | UndefinedBehaviour

fun and_then :: "'e + 'a \<Rightarrow> ('a \<Rightarrow> 'e + 'b) \<Rightarrow> 'e + 'b" where
  "and_then (Inl e) f = Inl e"
| "and_then (Inr x) f = f x"

section \<open>The base class\<close>

record RollingStatistics =
  skip_nan :: bool
  num_vals_nan :: size_t
  num_vals_notnan :: size_t

definition size_nan :: "'a RollingStatistics_scheme \<Rightarrow> size_t" where
  "size_nan s = num_vals_nan s"

definition size_notnan :: "'a RollingStatistics_scheme \<Rightarrow> size_t" where
  "size_notnan s = num_vals_notnan s"

definition size_rs :: "'a RollingStatistics_scheme \<Rightarrow> size_t" where
  "size_rs s = num_vals_nan s + num_vals_notnan s"

text \<open>The gate of \<open>compute\<close>, shared by every engine.\<close>

definition gate :: "'a RollingStatistics_scheme \<Rightarrow> bool" where
  "gate s \<longleftrightarrow> num_vals_notnan s = 0 \<or> (\<not> skip_nan s \<and> num_vals_nan s > 0)"

section \<open>Moment engines\<close>

record RollingMomentStatistics = RollingStatistics +
  unnormalized_moments :: "D list"
  vecs_in_window :: "D list list"
  num_moments :: nat

definition clear_moment :: "RollingMomentStatistics \<Rightarrow> RollingMomentStatistics" where
  "clear_moment s = s\<lparr>unnormalized_moments := replicate (num_moments s) (Num 0),
                       vecs_in_window := replicate (num_moments s) [],
                       num_vals_nan := 0, num_vals_notnan := 0\<rparr>"

definition new_moment :: "bool \<Rightarrow> nat \<Rightarrow> RollingMomentStatistics" where
  "new_moment skip_nan' num_moments' =
     clear_moment \<lparr>skip_nan = skip_nan', num_vals_nan = 0, num_vals_notnan = 0,
                   unnormalized_moments = [], vecs_in_window = [],
                   num_moments = num_moments'\<rparr>"

definition front_moment :: "RollingMomentStatistics \<Rightarrow> fault + D" where
  "front_moment s =
     (case vecs_in_window s of
        [] \<Rightarrow> Inl UndefinedBehaviour
      | q # _ \<Rightarrow> (case q of [] \<Rightarrow> Inl AssertionFailed | v # _ \<Rightarrow> Inr v))"

definition push_aux :: "D \<Rightarrow> nat \<Rightarrow> RollingMomentStatistics \<Rightarrow> fault + RollingMomentStatistics" where
  "push_aux val index s =
     (if index \<ge> length (vecs_in_window s) then Inl UndefinedBehaviour
      else
        let s1 = s\<lparr>vecs_in_window := (vecs_in_window s)[index := vecs_in_window s ! index @ [val]]\<rparr>
        in if \<not> isnan val then
             (if index \<ge> length (unnormalized_moments s1) then Inl UndefinedBehaviour
              else
                let s2 = s1\<lparr>unnormalized_moments :=
                            (unnormalized_moments s1)[index := fadd (unnormalized_moments s1 ! index) val]\<rparr>
                in Inr (if index = 0 then s2\<lparr>num_vals_notnan := num_vals_notnan s2 + 1\<rparr> else s2))
           else Inr (if index = 0 then s1\<lparr>num_vals_nan := num_vals_nan s1 + 1\<rparr> else s1))"

definition pop_aux :: "nat \<Rightarrow> RollingMomentStatistics \<Rightarrow> fault + RollingMomentStatistics" where
  "pop_aux index s =
     (if index \<ge> length (vecs_in_window s) then Inl UndefinedBehaviour
      else case vecs_in_window s ! index of
        [] \<Rightarrow> Inl AssertionFailed
      | val # rest \<Rightarrow>
          and_then
            (if \<not> isnan val then
               (if index \<ge> length (unnormalized_moments s) then Inl UndefinedBehaviour
                else
                  let s1 = s\<lparr>unnormalized_moments :=
                              (unnormalized_moments s)[index := fsub (unnormalized_moments s ! index) val]\<rparr>
                  in Inr (if index = 0 then s1\<lparr>num_vals_notnan := num_vals_notnan s1 - 1\<rparr> else s1))
             else Inr (if index = 0 then s\<lparr>num_vals_nan := num_vals_nan s - 1\<rparr> else s))
            (\<lambda>s2. Inr (s2\<lparr>vecs_in_window := (vecs_in_window s2)[index := rest]\<rparr>)))"

text \<open>The loop of the default \<open>pop\<close>: \<open>pop_aux\<close> on each index below \<open>num_moments\<close>, in order.\<close>

fun pop_from :: "nat list \<Rightarrow> RollingMomentStatistics \<Rightarrow> fault + RollingMomentStatistics" where
  "pop_from [] s = Inr s"
| "pop_from (index # rest) s = and_then (pop_aux index s) (pop_from rest)"

definition pop_moment :: "RollingMomentStatistics \<Rightarrow> fault + RollingMomentStatistics" where
  "pop_moment s = pop_from [0 ..< num_moments s] s"

text \<open>Reading \<open>get_moments()[i]\<close>: out of range is undefined behaviour.\<close>

definition moment_at :: "RollingMomentStatistics \<Rightarrow> nat \<Rightarrow> fault + D" where
  "moment_at s i =
     (if i < length (unnormalized_moments s) then Inr (unnormalized_moments s ! i)
      else Inl UndefinedBehaviour)"

subsection \<open>RollingMean\<close>

definition new_mean :: "bool \<Rightarrow> RollingMomentStatistics" where
  "new_mean skip_nan' = new_moment skip_nan' 1"

definition compute_aux_mean :: "RollingMomentStatistics \<Rightarrow> fault + D" where
  "compute_aux_mean s =
     (let n = of_size_t (num_vals_notnan s)
      in and_then (moment_at s 0) (\<lambda>m0. Inr (fdiv m0 n)))"

definition push_mean :: "D \<Rightarrow> RollingMomentStatistics \<Rightarrow> fault + RollingMomentStatistics" where
  "push_mean val s = push_aux val 0 s"

subsection \<open>RollingVariance\<close>

definition new_variance :: "bool \<Rightarrow> RollingMomentStatistics" where
  "new_variance skip_nan' = new_moment skip_nan' 2"

definition compute_aux_variance :: "RollingMomentStatistics \<Rightarrow> fault + D" where
  "compute_aux_variance s =
     (let n = of_size_t (num_vals_notnan s)
      in and_then (moment_at s 0) (\<lambda>m0.
           let x_mean = fdiv m0 n
           in and_then (moment_at s 1) (\<lambda>m1.
                Inr (fsub (fdiv m1 n) (fmul x_mean x_mean)))))"

definition push_variance :: "D \<Rightarrow> RollingMomentStatistics \<Rightarrow> fault + RollingMomentStatistics" where
  "push_variance val s = and_then (push_aux val 0 s) (push_aux (fmul val val) 1)"

subsection \<open>RollingSkewness\<close>

definition new_skewness :: "bool \<Rightarrow> RollingMomentStatistics" where
  "new_skewness skip_nan' = new_moment skip_nan' 3"

definition compute_aux_skewness :: "RollingMomentStatistics \<Rightarrow> fault + D" where
  "compute_aux_skewness s =
     (let n = of_size_t (num_vals_notnan s)
      in and_then (moment_at s 0) (\<lambda>m0.
           let x_mean = fdiv m0 n
           in and_then (moment_at s 1) (\<lambda>m1.
                let x_var = fsub (fdiv m1 n) (fmul x_mean x_mean)
                in if fless x_var EPSILON then Inr NaN
                   else and_then (moment_at s 2) (\<lambda>m2.
                     Inr (fdiv
                       (fadd (fsub (fdiv m2 n) (fmul (fdiv (fmul (Num 3) m1) n) x_mean))
                             (fmul (fmul (fmul (Num 2) x_mean) x_mean) x_mean))
                       (fpow15 x_var))))))"

definition push_skewness :: "D \<Rightarrow> RollingMomentStatistics \<Rightarrow> fault + RollingMomentStatistics" where
  "push_skewness val s =
     and_then (and_then (push_aux val 0 s) (push_aux (fmul val val) 1))
              (push_aux (fmul (fmul val val) val) 2)"

subsection \<open>RollingZScore\<close>

definition new_zscore :: "bool \<Rightarrow> RollingMomentStatistics" where
  "new_zscore skip_nan' = new_moment skip_nan' 3"

definition compute_aux_zscore :: "RollingMomentStatistics \<Rightarrow> fault + D" where
  "compute_aux_zscore s =
     (let n = of_size_t (num_vals_notnan s)
      in and_then (moment_at s 1) (\<lambda>x.
           and_then (moment_at s 0) (\<lambda>m0.
             let x_mean = fdiv m0 n
             in and_then (moment_at s 2) (\<lambda>m2.
                  let x_var = fsub (fdiv m2 n) (fmul x_mean x_mean)
                  in if fless x_var EPSILON then Inr NaN
                     else Inr (fdiv (fsub x x_mean) (fsqrt x_var))))))"

definition push_zscore :: "D \<Rightarrow> RollingMomentStatistics \<Rightarrow> fault + RollingMomentStatistics" where
  "push_zscore val s =
     and_then (push_aux val 0 s) (\<lambda>s1.
       if 1 \<ge> length (vecs_in_window s1) then Inl UndefinedBehaviour
       else and_then (if length (vecs_in_window s1 ! 1) \<ge> 1 then pop_aux 1 s1 else Inr s1) (\<lambda>s2.
              and_then (push_aux val 1 s2) (push_aux (fmul val val) 2)))"

definition pop_zscore :: "RollingMomentStatistics \<Rightarrow> fault + RollingMomentStatistics" where
  "pop_zscore s = and_then (pop_aux 0 s) (pop_aux 2)"


section \<open>Extremum engines\<close>

record RollingMax = RollingStatistics +
  vals_in_window :: "D list"
  maximums :: "D list"

definition clear_max :: "RollingMax \<Rightarrow> RollingMax" where
  "clear_max s = s\<lparr>vals_in_window := [], maximums := [], num_vals_nan := 0, num_vals_notnan := 0\<rparr>"

definition new_max :: "bool \<Rightarrow> RollingMax" where
  "new_max skip_nan' =
     clear_max \<lparr>skip_nan = skip_nan', num_vals_nan = 0, num_vals_notnan = 0,
                vals_in_window = [], maximums = []\<rparr>"

definition front_max :: "RollingMax \<Rightarrow> fault + D" where
  "front_max s = (case vals_in_window s of [] \<Rightarrow> Inl AssertionFailed | v # _ \<Rightarrow> Inr v)"

text \<open>\<open>while (!maximums.empty() && maximums.back() < val) maximums.pop_back();\<close>\<close>

function evict_back_max :: "D \<Rightarrow> D list \<Rightarrow> D list" where
  "evict_back_max val ms =
     (if ms \<noteq> [] \<and> fless (last ms) val then evict_back_max val (butlast ms) else ms)"
  by pat_completeness auto
termination
  by (relation "measure (\<lambda>(val, ms). length ms)") auto

definition push_max :: "D \<Rightarrow> RollingMax \<Rightarrow> RollingMax" where
  "push_max val s =
     (let s1 = s\<lparr>vals_in_window := vals_in_window s @ [val]\<rparr>
      in if isnan val then s1\<lparr>num_vals_nan := num_vals_nan s1 + 1\<rparr>
         else s1\<lparr>maximums := evict_back_max val (maximums s1) @ [val],
                 num_vals_notnan := num_vals_notnan s1 + 1\<rparr>)"

definition pop_max :: "RollingMax \<Rightarrow> fault + RollingMax" where
  "pop_max s =
     and_then (front_max s) (\<lambda>val.
       let s1 = s\<lparr>vals_in_window := tl (vals_in_window s)\<rparr>
       in if isnan val then Inr (s1\<lparr>num_vals_nan := num_vals_nan s1 - 1\<rparr>)
          else (case maximums s1 of
                  [] \<Rightarrow> Inl UndefinedBehaviour
                | m # ms \<Rightarrow>
                    let s2 = (if feq val m then s1\<lparr>maximums := ms\<rparr> else s1)
                    in Inr (s2\<lparr>num_vals_notnan := num_vals_notnan s2 - 1\<rparr>)))"

definition compute_aux_max :: "RollingMax \<Rightarrow> fault + D" where
  "compute_aux_max s = (case maximums s of [] \<Rightarrow> Inl UndefinedBehaviour | m # _ \<Rightarrow> Inr m)"

record RollingMin = RollingStatistics +
  vals_in_window_min :: "D list"
  minimums :: "D list"

definition clear_min :: "RollingMin \<Rightarrow> RollingMin" where
  "clear_min s = s\<lparr>vals_in_window_min := [], minimums := [], num_vals_nan := 0, num_vals_notnan := 0\<rparr>"

definition new_min :: "bool \<Rightarrow> RollingMin" where
  "new_min skip_nan' =
     clear_min \<lparr>skip_nan = skip_nan', num_vals_nan = 0, num_vals_notnan = 0,
                vals_in_window_min = [], minimums = []\<rparr>"

definition front_min :: "RollingMin \<Rightarrow> fault + D" where
  "front_min s = (case vals_in_window_min s of [] \<Rightarrow> Inl AssertionFailed | v # _ \<Rightarrow> Inr v)"

text \<open>\<open>while (!minimums.empty() && minimums.back() > val) minimums.pop_back();\<close>\<close>

function evict_back_min :: "D \<Rightarrow> D list \<Rightarrow> D list" where
  "evict_back_min val ms =
     (if ms \<noteq> [] \<and> fless val (last ms) then evict_back_min val (butlast ms) else ms)"
  by pat_completeness auto
termination
  by (relation "measure (\<lambda>(val, ms). length ms)") auto

definition push_min :: "D \<Rightarrow> RollingMin \<Rightarrow> RollingMin" where
  "push_min val s =
     (let s1 = s\<lparr>vals_in_window_min := vals_in_window_min s @ [val]\<rparr>
      in if isnan val then s1\<lparr>num_vals_nan := num_vals_nan s1 + 1\<rparr>
         else s1\<lparr>minimums := evict_back_min val (minimums s1) @ [val],
                 num_vals_notnan := num_vals_notnan s1 + 1\<rparr>)"

definition pop_min :: "RollingMin \<Rightarrow> fault + RollingMin" where
  "pop_min s =
     and_then (front_min s) (\<lambda>val.
       let s1 = s\<lparr>vals_in_window_min := tl (vals_in_window_min s)\<rparr>
       in if isnan val then Inr (s1\<lparr>num_vals_nan := num_vals_nan s1 - 1\<rparr>)
          else (case minimums s1 of
                  [] \<Rightarrow> Inl UndefinedBehaviour
                | m # ms \<Rightarrow>
                    let s2 = (if feq val m then s1\<lparr>minimums := ms\<rparr> else s1)
                    in Inr (s2\<lparr>num_vals_notnan := num_vals_notnan s2 - 1\<rparr>)))"

definition compute_aux_min :: "RollingMin \<Rightarrow> fault + D" where
  "compute_aux_min s = (case minimums s of [] \<Rightarrow> Inl UndefinedBehaviour | m # _ \<Rightarrow> Inr m)"

section \<open>Order-statistics engines\<close>

text \<open>
  \<open>order_statistics_tree\<close> is the policy-based tree of the GNU library, ordered by
  \<open>std::less_equal\<close> so that it keeps duplicates. It is modelled by the ascending list
  of its elements: \<open>insert\<close> puts a value behind every element not above it,
  \<open>upper_bound(val)\<close> is the first element \<open>e\<close> with \<open>val \<le> e\<close> (the bounds are
  exchanged under the non-strict order, as the source's comment says),
  \<open>order_of_key(val)\<close> counts the elements \<open>e\<close> with \<open>e \<le> val\<close>, and
  \<open>find_by_order(k)\<close> is the element at position \<open>k\<close>, the end iterator when there is none.
\<close>

fun fle :: "D \<Rightarrow> D \<Rightarrow> bool" where
  "fle (Num a) (Num b) = (a \<le> b)"
| "fle _ _ = False"

fun ost_insert :: "D \<Rightarrow> D list \<Rightarrow> D list" where
  "ost_insert val [] = [val]"
| "ost_insert val (e # es) = (if fle e val then e # ost_insert val es else val # e # es)"

text \<open>\<open>ost.erase(ost.upper_bound(val))\<close>; erasing the end iterator is undefined behaviour.\<close>

fun ost_erase_upper_bound :: "D \<Rightarrow> D list \<Rightarrow> fault + D list" where
  "ost_erase_upper_bound val [] = Inl UndefinedBehaviour"
| "ost_erase_upper_bound val (e # es) =
     (if fle val e then Inr es
      else and_then (ost_erase_upper_bound val es) (\<lambda>es'. Inr (e # es')))"

definition order_of_key :: "D \<Rightarrow> D list \<Rightarrow> size_t" where
  "order_of_key val t = of_nat (length (filter (\<lambda>e. fle e val) t))"

text \<open>\<open>*(ost.find_by_order(k))\<close>\<close>

definition find_by_order :: "size_t \<Rightarrow> D list \<Rightarrow> fault + D" where
  "find_by_order k t = (if unat k < length t then Inr (t ! unat k) else Inl UndefinedBehaviour)"

record RollingRank = RollingStatistics +
  vals_in_window_rank :: "D list"
  ost_rank :: "D list"
  normalize_rank :: bool

definition clear_rank :: "RollingRank \<Rightarrow> RollingRank" where
  "clear_rank s = s\<lparr>vals_in_window_rank := [], ost_rank := [], num_vals_nan := 0, num_vals_notnan := 0\<rparr>"

definition new_rank :: "bool \<Rightarrow> bool \<Rightarrow> RollingRank" where
  "new_rank skip_nan' normalize' =
     clear_rank \<lparr>skip_nan = skip_nan', num_vals_nan = 0, num_vals_notnan = 0,
                 vals_in_window_rank = [], ost_rank = [], normalize_rank = normalize'\<rparr>"

definition front_rank :: "RollingRank \<Rightarrow> fault + D" where
  "front_rank s = (case vals_in_window_rank s of [] \<Rightarrow> Inl AssertionFailed | v # _ \<Rightarrow> Inr v)"

definition compute_aux_rank :: "RollingRank \<Rightarrow> fault + D" where
  "compute_aux_rank s =
     (if vals_in_window_rank s = [] then Inl UndefinedBehaviour
      else
        let val = of_size_t (order_of_key (last (vals_in_window_rank s)) (ost_rank s))
        in Inr (if normalize_rank s then fdiv val (of_size_t (num_vals_notnan s)) else val))"

definition push_rank :: "D \<Rightarrow> RollingRank \<Rightarrow> RollingRank" where
  "push_rank val s =
     (let s1 = s\<lparr>vals_in_window_rank := vals_in_window_rank s @ [val]\<rparr>
      in if isnan val then s1\<lparr>num_vals_nan := num_vals_nan s1 + 1\<rparr>
         else s1\<lparr>ost_rank := ost_insert val (ost_rank s1),
                 num_vals_notnan := num_vals_notnan s1 + 1\<rparr>)"

definition pop_rank :: "RollingRank \<Rightarrow> fault + RollingRank" where
  "pop_rank s =
     and_then (front_rank s) (\<lambda>val.
       let s1 = s\<lparr>vals_in_window_rank := tl (vals_in_window_rank s)\<rparr>
       in if isnan val then Inr (s1\<lparr>num_vals_nan := num_vals_nan s1 - 1\<rparr>)
          else and_then (ost_erase_upper_bound val (ost_rank s1)) (\<lambda>t.
                 Inr (s1\<lparr>ost_rank := t, num_vals_notnan := num_vals_notnan s1 - 1\<rparr>)))"

record RollingOrderStatistics = RollingStatistics +
  vals_in_window_os :: "D list"
  ost :: "D list"
  normalize :: bool
  order :: D

definition clear_os :: "RollingOrderStatistics \<Rightarrow> RollingOrderStatistics" where
  "clear_os s = s\<lparr>vals_in_window_os := [], ost := [], num_vals_nan := 0, num_vals_notnan := 0\<rparr>"

definition new_os :: "D \<Rightarrow> bool \<Rightarrow> bool \<Rightarrow> RollingOrderStatistics" where
  "new_os order' skip_nan' normalize' =
     clear_os \<lparr>skip_nan = skip_nan', num_vals_nan = 0, num_vals_notnan = 0,
               vals_in_window_os = [], ost = [], normalize = normalize', order = order'\<rparr>"

definition front_os :: "RollingOrderStatistics \<Rightarrow> fault + D" where
  "front_os s = (case vals_in_window_os s of [] \<Rightarrow> Inl AssertionFailed | v # _ \<Rightarrow> Inr v)"

text \<open>
  \<open>static_cast<size_t>(x)\<close> truncates towards zero; the conversion of NaN or of a value
  whose truncation does not fit \<open>size_t\<close> is undefined behaviour.
\<close>

fun to_size_t :: "D \<Rightarrow> fault + size_t" where
  "to_size_t NaN = Inl UndefinedBehaviour"
| "to_size_t (Num x) =
     (if - 1 < x \<and> x < 2 ^ 64 then Inr (of_nat (nat \<lfloor>x\<rfloor>)) else Inl UndefinedBehaviour)"

definition compute_aux_os :: "RollingOrderStatistics \<Rightarrow> fault + D" where
  "compute_aux_os s =
     and_then (to_size_t (if normalize s then fmul (order s) (of_size_t (num_vals_notnan s)) else order s))
       (\<lambda>k. let real_order = min (num_vals_notnan s - 1) k
            in find_by_order real_order (ost s))"

definition push_os :: "D \<Rightarrow> RollingOrderStatistics \<Rightarrow> RollingOrderStatistics" where
  "push_os val s =
     (let s1 = s\<lparr>vals_in_window_os := vals_in_window_os s @ [val]\<rparr>
      in if isnan val then s1\<lparr>num_vals_nan := num_vals_nan s1 + 1\<rparr>
         else s1\<lparr>ost := ost_insert val (ost s1),
                 num_vals_notnan := num_vals_notnan s1 + 1\<rparr>)"

definition pop_os :: "RollingOrderStatistics \<Rightarrow> fault + RollingOrderStatistics" where
  "pop_os s =
     and_then (front_os s) (\<lambda>val.
       let s1 = s\<lparr>vals_in_window_os := tl (vals_in_window_os s)\<rparr>
       in if isnan val then Inr (s1\<lparr>num_vals_nan := num_vals_nan s1 - 1\<rparr>)
          else and_then (ost_erase_upper_bound val (ost s1)) (\<lambda>t.
                 Inr (s1\<lparr>ost := t, num_vals_notnan := num_vals_notnan s1 - 1\<rparr>)))"

section \<open>The engines behind the common interface\<close>

text \<open>Virtual dispatch over the derived classes.\<close>

datatype engine =
    MeanE RollingMomentStatistics
  | VarianceE RollingMomentStatistics
  | SkewnessE RollingMomentStatistics
  | ZScoreE RollingMomentStatistics
  | MaxE RollingMax
  | MinE RollingMin
  | RankE RollingRank
  | OrderStatisticsE RollingOrderStatistics

fun base :: "engine \<Rightarrow> RollingStatistics" where
  "base (MeanE s) = RollingStatistics.truncate s"
| "base (VarianceE s) = RollingStatistics.truncate s"
| "base (SkewnessE s) = RollingStatistics.truncate s"
| "base (ZScoreE s) = RollingStatistics.truncate s"
| "base (MaxE s) = RollingStatistics.truncate s"
| "base (MinE s) = RollingStatistics.truncate s"
| "base (RankE s) = RollingStatistics.truncate s"
| "base (OrderStatisticsE s) = RollingStatistics.truncate s"

fun clear :: "engine \<Rightarrow> engine" where
  "clear (MeanE s) = MeanE (clear_moment s)"
| "clear (VarianceE s) = VarianceE (clear_moment s)"
| "clear (SkewnessE s) = SkewnessE (clear_moment s)"
| "clear (ZScoreE s) = ZScoreE (clear_moment s)"
| "clear (MaxE s) = MaxE (clear_max s)"
| "clear (MinE s) = MinE (clear_min s)"
| "clear (RankE s) = RankE (clear_rank s)"
| "clear (OrderStatisticsE s) = OrderStatisticsE (clear_os s)"

fun push :: "D \<Rightarrow> engine \<Rightarrow> fault + engine" where
  "push val (MeanE s) = and_then (push_mean val s) (\<lambda>s'. Inr (MeanE s'))"
| "push val (VarianceE s) = and_then (push_variance val s) (\<lambda>s'. Inr (VarianceE s'))"
| "push val (SkewnessE s) = and_then (push_skewness val s) (\<lambda>s'. Inr (SkewnessE s'))"
| "push val (ZScoreE s) = and_then (push_zscore val s) (\<lambda>s'. Inr (ZScoreE s'))"
| "push val (MaxE s) = Inr (MaxE (push_max val s))"
| "push val (MinE s) = Inr (MinE (push_min val s))"
| "push val (RankE s) = Inr (RankE (push_rank val s))"
| "push val (OrderStatisticsE s) = Inr (OrderStatisticsE (push_os val s))"

fun pop :: "engine \<Rightarrow> fault + engine" where
  "pop (MeanE s) = and_then (pop_moment s) (\<lambda>s'. Inr (MeanE s'))"
| "pop (VarianceE s) = and_then (pop_moment s) (\<lambda>s'. Inr (VarianceE s'))"
| "pop (SkewnessE s) = and_then (pop_moment s) (\<lambda>s'. Inr (SkewnessE s'))"
| "pop (ZScoreE s) = and_then (pop_zscore s) (\<lambda>s'. Inr (ZScoreE s'))"
| "pop (MaxE s) = and_then (pop_max s) (\<lambda>s'. Inr (MaxE s'))"
| "pop (MinE s) = and_then (pop_min s) (\<lambda>s'. Inr (MinE s'))"
| "pop (RankE s) = and_then (pop_rank s) (\<lambda>s'. Inr (RankE s'))"
| "pop (OrderStatisticsE s) = and_then (pop_os s) (\<lambda>s'. Inr (OrderStatisticsE s'))"

fun compute_aux :: "engine \<Rightarrow> fault + D" where
  "compute_aux (MeanE s) = compute_aux_mean s"
| "compute_aux (VarianceE s) = compute_aux_variance s"
| "compute_aux (SkewnessE s) = compute_aux_skewness s"
| "compute_aux (ZScoreE s) = compute_aux_zscore s"
| "compute_aux (MaxE s) = compute_aux_max s"
| "compute_aux (MinE s) = compute_aux_min s"
| "compute_aux (RankE s) = compute_aux_rank s"
| "compute_aux (OrderStatisticsE s) = compute_aux_os s"

definition compute :: "engine \<Rightarrow> fault + D" where
  "compute e = (if gate (base e) then Inr NaN else compute_aux e)"

definition size_e :: "engine \<Rightarrow> size_t" where
  "size_e e = size_rs (base e)"

definition size_nan_e :: "engine \<Rightarrow> size_t" where
  "size_nan_e e = size_nan (base e)"

definition size_notnan_e :: "engine \<Rightarrow> size_t" where
  "size_notnan_e e = size_notnan (base e)"

text \<open>A caller's sequence of operations on one engine; it stops at the first fault.\<close>

datatype operation = Push D | Pop | Clear

fun apply_operation :: "operation \<Rightarrow> engine \<Rightarrow> fault + engine" where
  "apply_operation (Push val) e = push val e"
| "apply_operation Pop e = pop e"
| "apply_operation Clear e = Inr (clear e)"

fun run :: "operation list \<Rightarrow> engine \<Rightarrow> fault + engine" where
  "run [] e = Inr e"
| "run (p # ps) e = and_then (apply_operation p e) (run ps)"


section \<open>Rolling along one axis of an array\<close>

text \<open>
  The caller's buffer is the list of the elements at \<open>ptr_arr\<close>; an access at an offset
  outside it is undefined behaviour. Extents, strides, indices and offsets are
  \<open>size_t\<close> values; positions in the vectors \<open>shape\<close>, \<open>strides\<close> and \<open>indices\<close>
  (\<open>ndim\<close>, \<open>axis\<close>, \<open>current_axis\<close>) are natural numbers, a vector being far shorter
  than \<open>2 ^ 64\<close>.
\<close>

record roll_state =
  eng :: engine
  arr :: "D list"
  indices :: "size_t list"
  scalar_index :: size_t
  current_axis :: nat

text \<open>\<open>v[i]\<close> on a \<open>std::vector\<close>: out of range is undefined behaviour.\<close>

definition vget :: "'a list \<Rightarrow> nat \<Rightarrow> fault + 'a" where
  "vget v i = (if i < length v then Inr (v ! i) else Inl UndefinedBehaviour)"

text \<open>The loop that multiplies the extents into \<open>size_arr\<close>.\<close>

definition size_arr_of :: "size_t list \<Rightarrow> size_t" where
  "size_arr_of shape = foldl (\<lambda>acc i. acc * shape ! i) 1 [0 ..< length shape]"

text \<open>
  The loop that fills the default strides, for \<open>i\<close> below \<open>ndim\<close> (so \<open>ndim - i\<close> is a
  position of \<open>shape\<close> when \<open>i > 0\<close>), and the reversal behind it.
\<close>

fun strides_loop :: "size_t list \<Rightarrow> nat list \<Rightarrow> size_t \<Rightarrow> size_t list \<Rightarrow> size_t list" where
  "strides_loop shape [] stride strides = strides"
| "strides_loop shape (i # rest) stride strides =
     (let stride' = (if i > 0 then stride * shape ! (length shape - i) else stride)
      in strides_loop shape rest stride' (strides @ [stride']))"

definition default_strides :: "size_t list \<Rightarrow> size_t list" where
  "default_strides shape = rev (strides_loop shape [0 ..< length shape] 1 [])"

definition first_axis :: "nat \<Rightarrow> nat" where
  "first_axis axis = (if axis = 0 then 1 else 0)"

text \<open>
  One pass of the loop over the axis: push the element, pop when the index has reached
  the window, write the statistic or NaN back, move on by the stride of the axis.
\<close>

definition roll_step :: "nat \<Rightarrow> size_t list \<Rightarrow> size_t \<Rightarrow> size_t \<Rightarrow> roll_state \<Rightarrow> (fault \<times> roll_state) + roll_state" where
  "roll_step axis strides window min_periods st =
     (if unat (scalar_index st) \<ge> length (arr st) then Inl (UndefinedBehaviour, st)
      else case push (arr st ! unat (scalar_index st)) (eng st) of
        Inl f \<Rightarrow> Inl (f, st)
      | Inr e1 \<Rightarrow>
         (case (if indices st ! axis \<ge> window then pop e1 else Inr e1) of
            Inl f \<Rightarrow> Inl (f, st\<lparr>eng := e1\<rparr>)
          | Inr e2 \<Rightarrow>
             (case (if size_notnan_e e2 \<ge> min_periods then compute e2 else Inr NaN) of
                Inl f \<Rightarrow> Inl (f, st\<lparr>eng := e2\<rparr>)
              | Inr r \<Rightarrow>
                  Inr (st\<lparr>eng := e2,
                          arr := (arr st)[unat (scalar_index st) := r],
                          scalar_index := scalar_index st + strides ! axis\<rparr>))))"

text \<open>\<open>for (indices[axis] = 0; indices[axis] != shape[axis]; ++indices[axis])\<close>, from its test on.\<close>

function roll_axis :: "size_t list \<Rightarrow> nat \<Rightarrow> size_t list \<Rightarrow> size_t \<Rightarrow> size_t \<Rightarrow> roll_state \<Rightarrow> (fault \<times> roll_state) + roll_state" where
  "roll_axis shape axis strides window min_periods st =
     (if axis \<ge> length (indices st) \<or> axis \<ge> length shape \<or> axis \<ge> length strides
      then Inl (UndefinedBehaviour, st)
      else if indices st ! axis = shape ! axis then Inr st
      else case roll_step axis strides window min_periods st of
        Inl fs \<Rightarrow> Inl fs
      | Inr st' \<Rightarrow>
          roll_axis shape axis strides window min_periods
            (st'\<lparr>indices := (indices st)[axis := indices st ! axis + 1]\<rparr>))"
  by pat_completeness auto
termination
proof (relation "measure (\<lambda>(shape, axis, strides, window, min_periods, st).
                   unat (shape ! axis - indices st ! axis))", goal_cases)
  case 1
  show ?case by simp
next
  case (2 shape axis strides window min_periods st st')
  then have "shape ! axis - indices st ! axis \<noteq> 0"
    by simp
  then have "unat (shape ! axis - indices st ! axis - 1) < unat (shape ! axis - indices st ! axis)"
    by (rule measure_unat)
  then show ?case
    using 2 by (simp add: diff_diff_eq)
qed

text \<open>
  The carry of the odometer:
  \<open>while (indices[current_axis] == shape[current_axis] - 1) { ... }\<close>. The test reads
  both vectors at \<open>current_axis\<close> before anything compares it with \<open>ndim\<close>.
\<close>

function carry :: "size_t list \<Rightarrow> nat \<Rightarrow> roll_state \<Rightarrow> (fault \<times> roll_state) + roll_state" where
  "carry shape axis st =
     (if current_axis st \<ge> length (indices st) \<or> current_axis st \<ge> length shape
      then Inl (UndefinedBehaviour, st)
      else if indices st ! current_axis st = shape ! current_axis st - 1
      then carry shape axis
             (st\<lparr>indices := (indices st)[current_axis st := 0],
                 current_axis := (if current_axis st + 1 = axis then current_axis st + 2
                                  else current_axis st + 1)\<rparr>)
      else Inr st)"
  by pat_completeness auto
termination
  by (relation "measure (\<lambda>(shape, axis, st). length (indices st) - current_axis st)") auto

text \<open>
  What follows the loop over the axis: step the index of the axis back, then go to the
  next lane. The result says whether the \<open>break\<close> was taken.
\<close>

definition next_lane :: "size_t list \<Rightarrow> nat \<Rightarrow> roll_state \<Rightarrow> (fault \<times> roll_state) + (bool \<times> roll_state)" where
  "next_lane shape axis st0 =
     (if axis \<ge> length (indices st0) then Inl (UndefinedBehaviour, st0)
      else if \<not> indices st0 ! axis > 0 then Inl (AssertionFailed, st0)
      else
        let st = st0\<lparr>indices := (indices st0)[axis := indices st0 ! axis - 1]\<rparr>
        in if current_axis st \<ge> length (indices st) \<or> current_axis st \<ge> length shape
           then Inl (UndefinedBehaviour, st)
           else if indices st ! current_axis st = shape ! current_axis st - 1
           then (case carry shape axis st of
                   Inl fs \<Rightarrow> Inl fs
                 | Inr st1 \<Rightarrow>
                     if current_axis st1 < length shape
                     then (if current_axis st1 \<ge> length (indices st1) then Inl (UndefinedBehaviour, st1)
                           else Inr (False,
                                  st1\<lparr>indices := (indices st1)[current_axis st1 :=
                                                     indices st1 ! current_axis st1 + 1],
                                      current_axis := first_axis axis\<rparr>))
                     else Inr (True, st1))
           else Inr (False, st\<lparr>indices := (indices st)[current_axis st :=
                                              indices st ! current_axis st + 1]\<rparr>))"

text \<open>The head of the \<open>while (true)\<close> body: reset the engine and find the lane's first offset.\<close>

definition start_lane :: "size_t list \<Rightarrow> nat \<Rightarrow> size_t list \<Rightarrow> roll_state \<Rightarrow> (fault \<times> roll_state) + roll_state" where
  "start_lane shape axis strides st0 =
     (let st1 = st0\<lparr>eng := clear (eng st0), scalar_index := 0\<rparr>
      in if axis \<ge> length (indices st1) then Inl (UndefinedBehaviour, st1)
         else
           let st2 = st1\<lparr>indices := (indices st1)[axis := 0]\<rparr>;
               st3 = st2\<lparr>scalar_index :=
                       foldl (\<lambda>acc i. acc + indices st2 ! i * strides ! i) 0 [0 ..< length shape]\<rparr>
           in if \<not> scalar_index st3 < size_arr_of shape then Inl (AssertionFailed, st3)
              else Inr st3)"

partial_function (option) roll_lanes :: "size_t list \<Rightarrow> nat \<Rightarrow> size_t list \<Rightarrow> size_t \<Rightarrow> size_t \<Rightarrow> roll_state \<Rightarrow> ((fault \<times> roll_state) + roll_state) option" where
  "roll_lanes shape axis strides window min_periods st =
     (case start_lane shape axis strides st of
        Inl fs \<Rightarrow> Some (Inl fs)
      | Inr st1 \<Rightarrow>
         (case roll_axis shape axis strides window min_periods st1 of
            Inl fs \<Rightarrow> Some (Inl fs)
          | Inr st2 \<Rightarrow>
             (case next_lane shape axis st2 of
                Inl fs \<Rightarrow> Some (Inl fs)
              | Inr (stop, st3) \<Rightarrow>
                  if stop then Some (Inr st3)
                  else roll_lanes shape axis strides window min_periods st3)))"

text \<open>
  \<open>roll_ndarray\<close>: what the caller sees when the call ends is a fault, if there was one,
  the engine and the buffer. \<open>None\<close> is a call that never ends.
\<close>

fun seen :: "(fault \<times> roll_state) + roll_state \<Rightarrow> fault option \<times> engine \<times> D list" where
  "seen (Inl (f, st)) = (Some f, eng st, arr st)"
| "seen (Inr st) = (None, eng st, arr st)"

definition roll_ndarray :: "engine \<Rightarrow> D list \<Rightarrow> size_t list \<Rightarrow> nat \<Rightarrow> size_t \<Rightarrow> size_t \<Rightarrow> size_t list \<Rightarrow> (fault option \<times> engine \<times> D list) option" where
  "roll_ndarray e ptr_arr shape axis window min_periods strides =
     (let ndim = length shape
      in if \<not> ndim > 0 then Some (Some AssertionFailed, e, ptr_arr)
         else if \<not> (strides = [] \<or> length strides = ndim) then Some (Some AssertionFailed, e, ptr_arr)
         else
           let strides' = (if strides = [] then default_strides shape else strides);
               st = \<lparr>eng = e, arr = ptr_arr, indices = replicate ndim 0, scalar_index = 0,
                     current_axis = (if ndim = 1 then 0 else first_axis axis)\<rparr>
           in map_option seen (roll_lanes shape axis strides' window min_periods st))"


section \<open>Constructors and the window of an engine\<close>

datatype ctor =
    NewMean bool
  | NewVariance bool
  | NewSkewness bool
  | NewZScore bool
  | NewMax bool
  | NewMin bool
  | NewRank bool bool
  | NewOrderStatistics D bool bool

fun construct :: "ctor \<Rightarrow> engine" where
  "construct (NewMean skip_nan') = MeanE (new_mean skip_nan')"
| "construct (NewVariance skip_nan') = VarianceE (new_variance skip_nan')"
| "construct (NewSkewness skip_nan') = SkewnessE (new_skewness skip_nan')"
| "construct (NewZScore skip_nan') = ZScoreE (new_zscore skip_nan')"
| "construct (NewMax skip_nan') = MaxE (new_max skip_nan')"
| "construct (NewMin skip_nan') = MinE (new_min skip_nan')"
| "construct (NewRank skip_nan' normalize') = RankE (new_rank skip_nan' normalize')"
| "construct (NewOrderStatistics order' skip_nan' normalize') =
     OrderStatisticsE (new_os order' skip_nan' normalize')"

fun skips :: "ctor \<Rightarrow> bool" where
  "skips (NewMean b) = b"
| "skips (NewVariance b) = b"
| "skips (NewSkewness b) = b"
| "skips (NewZScore b) = b"
| "skips (NewMax b) = b"
| "skips (NewMin b) = b"
| "skips (NewRank b n) = b"
| "skips (NewOrderStatistics r b n) = b"

text \<open>
  The window a sequence of operations leaves behind, as the specification describes it:
  a push appends, a pop removes the oldest value, a clear empties. \<open>None\<close> is a pop from
  an empty window, that is, more pops than pushes since the last clear. The second
  component is the value pushed last since the last clear.
\<close>

fun window_after :: "operation list \<Rightarrow> D list \<times> D option \<Rightarrow> (D list \<times> D option) option" where
  "window_after [] wl = Some wl"
| "window_after (Push val # ps) (w, l) = window_after ps (w @ [val], Some val)"
| "window_after (Pop # ps) (w, l) = (if w = [] then None else window_after ps (tl w, l))"
| "window_after (Clear # ps) (w, l) = window_after ps ([], None)"

text \<open>The pushes and the pops since the last clear.\<close>

fun count_ops :: "operation list \<Rightarrow> nat \<times> nat \<Rightarrow> nat \<times> nat" where
  "count_ops [] pq = pq"
| "count_ops (Push val # ps) (p, q) = count_ops ps (p + 1, q)"
| "count_ops (Pop # ps) (p, q) = count_ops ps (p, q + 1)"
| "count_ops (Clear # ps) (p, q) = count_ops ps (0, 0)"

definition pushes :: "operation list \<Rightarrow> nat" where
  "pushes ops = fst (count_ops ops (0, 0))"

definition pops :: "operation list \<Rightarrow> nat" where
  "pops ops = snd (count_ops ops (0, 0))"

text \<open>The non-NaN values of a window, as real numbers, in arrival order.\<close>

fun value_of :: "D \<Rightarrow> real" where
  "value_of (Num x) = x"
| "value_of NaN = 0"

definition vals :: "D list \<Rightarrow> real list" where
  "vals w = map value_of (filter (\<lambda>v. \<not> isnan v) w)"

definition nans :: "D list \<Rightarrow> D list" where
  "nans w = filter isnan w"


definition psum :: "nat \<Rightarrow> D list \<Rightarrow> real" where
  "psum j w = sum_list (map (\<lambda>x. x ^ j) (vals w))"

text \<open>The operations run on a freshly constructed engine, and \<open>compute\<close> behind them.\<close>

definition compute_after :: "ctor \<Rightarrow> operation list \<Rightarrow> fault + D" where
  "compute_after c ops = and_then (run ops (construct c)) compute"

section \<open>What each engine holds, in terms of its window\<close>

text \<open>
  The relations below tie the state of an engine to the window the specification speaks
  of. They are the invariants of the proofs: every constructor establishes one and every
  operation that does not fault keeps it.
\<close>

definition sq :: "D \<Rightarrow> D" where "sq v = fmul v v"
definition cu :: "D \<Rightarrow> D" where "cu v = fmul (fmul v v) v"

definition counts :: "'a RollingStatistics_scheme \<Rightarrow> bool \<Rightarrow> D list \<Rightarrow> bool" where
  "counts s sk w \<longleftrightarrow> skip_nan s = sk \<and> num_vals_nan s = of_nat (length (nans w))
     \<and> num_vals_notnan s = of_nat (length (vals w))"

definition tracks_mean :: "bool \<Rightarrow> RollingMomentStatistics \<Rightarrow> D list \<Rightarrow> bool" where
  "tracks_mean sk s w \<longleftrightarrow> counts s sk w \<and> num_moments s = 1 \<and> vecs_in_window s = [w]
     \<and> unnormalized_moments s = [Num (psum 1 w)]"

definition tracks_variance :: "bool \<Rightarrow> RollingMomentStatistics \<Rightarrow> D list \<Rightarrow> bool" where
  "tracks_variance sk s w \<longleftrightarrow> counts s sk w \<and> num_moments s = 2 \<and> vecs_in_window s = [w, map sq w]
     \<and> unnormalized_moments s = [Num (psum 1 w), Num (psum 2 w)]"

definition tracks_skewness :: "bool \<Rightarrow> RollingMomentStatistics \<Rightarrow> D list \<Rightarrow> bool" where
  "tracks_skewness sk s w \<longleftrightarrow> counts s sk w \<and> num_moments s = 3
     \<and> vecs_in_window s = [w, map sq w, map cu w]
     \<and> unnormalized_moments s = [Num (psum 1 w), Num (psum 2 w), Num (psum 3 w)]"

definition slot :: "D option \<Rightarrow> D list" where
  "slot l = (case l of None \<Rightarrow> [] | Some v \<Rightarrow> [v])"

definition slot_value :: "D option \<Rightarrow> real" where
  "slot_value l = (case l of None \<Rightarrow> 0 | Some v \<Rightarrow> value_of v)"

definition tracks_zscore :: "bool \<Rightarrow> RollingMomentStatistics \<Rightarrow> D list \<times> D option \<Rightarrow> bool" where
  "tracks_zscore sk s wl \<longleftrightarrow> counts s sk (fst wl) \<and> num_moments s = 3
     \<and> vecs_in_window s = [fst wl, slot (snd wl), map sq (fst wl)]
     \<and> unnormalized_moments s = [Num (psum 1 (fst wl)), Num (slot_value (snd wl)), Num (psum 2 (fst wl))]"

fun cands_max :: "real list \<Rightarrow> real list" where
  "cands_max [] = []"
| "cands_max (x # xs) = (if \<forall>y\<in>set xs. y \<le> x then x # cands_max xs else cands_max xs)"

definition tracks_max :: "bool \<Rightarrow> RollingMax \<Rightarrow> D list \<Rightarrow> bool" where
  "tracks_max sk s w \<longleftrightarrow> counts s sk w \<and> vals_in_window s = w
     \<and> maximums s = map Num (cands_max (vals w))"

fun cands_min :: "real list \<Rightarrow> real list" where
  "cands_min [] = []"
| "cands_min (x # xs) = (if \<forall>y\<in>set xs. x \<le> y then x # cands_min xs else cands_min xs)"

definition tracks_min :: "bool \<Rightarrow> RollingMin \<Rightarrow> D list \<Rightarrow> bool" where
  "tracks_min sk s w \<longleftrightarrow> counts s sk w \<and> vals_in_window_min s = w
     \<and> minimums s = map Num (cands_min (vals w))"

definition tracks_ost :: "D list \<Rightarrow> D list \<Rightarrow> bool" where
  "tracks_ost t w \<longleftrightarrow> t = map Num (sort (vals w))"

definition tracks_rank :: "bool \<Rightarrow> bool \<Rightarrow> RollingRank \<Rightarrow> D list \<Rightarrow> bool" where
  "tracks_rank sk nz s w \<longleftrightarrow> counts s sk w \<and> vals_in_window_rank s = w
     \<and> tracks_ost (ost_rank s) w \<and> normalize_rank s = nz"

definition tracks_os :: "D \<Rightarrow> bool \<Rightarrow> bool \<Rightarrow> RollingOrderStatistics \<Rightarrow> D list \<Rightarrow> bool" where
  "tracks_os r sk nz s w \<longleftrightarrow> counts s sk w \<and> vals_in_window_os s = w
     \<and> tracks_ost (ost s) w \<and> normalize s = nz \<and> order s = r"

fun tracks :: "ctor \<Rightarrow> engine \<Rightarrow> D list \<times> D option \<Rightarrow> bool" where
  "tracks (NewMean sk) (MeanE s) wl = tracks_mean sk s (fst wl)"
| "tracks (NewVariance sk) (VarianceE s) wl = tracks_variance sk s (fst wl)"
| "tracks (NewSkewness sk) (SkewnessE s) wl = tracks_skewness sk s (fst wl)"
| "tracks (NewZScore sk) (ZScoreE s) wl = tracks_zscore sk s wl"
| "tracks (NewMax sk) (MaxE s) wl = tracks_max sk s (fst wl)"
| "tracks (NewMin sk) (MinE s) wl = tracks_min sk s (fst wl)"
| "tracks (NewRank sk nz) (RankE s) wl = tracks_rank sk nz s (fst wl)"
| "tracks (NewOrderStatistics r sk nz) (OrderStatisticsE s) wl = tracks_os r sk nz s (fst wl)"
| "tracks _ _ _ = False"

text \<open>
  What the specification asks of one lane: the trailing window at an axis position (the
  positions from \<open>max 0 (i - W + 1)\<close> to \<open>i\<close>), and the value the position must hold
  afterwards, \<open>compute()\<close> of an engine fed exactly that window, or NaN below \<open>M\<close> valid
  values.
\<close>

definition window_at :: "nat \<Rightarrow> D list \<Rightarrow> nat \<Rightarrow> D list" where
  "window_at W xs i = drop (Suc i - W) (take (Suc i) xs)"

definition result_of :: "fault + D \<Rightarrow> D" where
  "result_of r = (case r of Inr d \<Rightarrow> d | Inl f \<Rightarrow> NaN)"

definition rolled :: "ctor \<Rightarrow> nat \<Rightarrow> nat \<Rightarrow> D list \<Rightarrow> nat \<Rightarrow> D" where
  "rolled c W M xs i =
     (let w = window_at W xs i
      in if M \<le> length (vals w) then result_of (compute_after c (map Push w)) else NaN)"

text \<open>
  The invariant of the loop over the axis, before the pass at index \<open>i\<close>: the positions
  before \<open>i\<close> hold their results, everything else is as it was at the start of the lane
  (\<open>st0\<close>), and the engine tracks the window so far.
\<close>

definition lane_inv ::
  "ctor \<Rightarrow> size_t \<Rightarrow> size_t \<Rightarrow> D list \<Rightarrow> (nat \<Rightarrow> nat) \<Rightarrow> nat \<Rightarrow> size_t \<Rightarrow> roll_state \<Rightarrow> nat \<Rightarrow> roll_state \<Rightarrow> bool" where
  "lane_inv c window min_periods xs pos axis stride st0 i st \<longleftrightarrow>
     indices st = (indices st0)[axis := of_nat i]
     \<and> scalar_index st = scalar_index st0 + of_nat i * stride
     \<and> current_axis st = current_axis st0
     \<and> length (arr st) = length (arr st0)
     \<and> (\<forall>j<i. arr st ! pos j = rolled c (unat window) (unat min_periods) xs j)
     \<and> (\<forall>p<length (arr st0). (\<forall>j<i. pos j \<noteq> p) \<longrightarrow> arr st ! p = arr st0 ! p)
     \<and> (\<exists>l. tracks c (eng st) (drop (i - unat window) (take i xs), l))"

text \<open>
  A quantile engine whose order converts to \<open>size_t\<close> whatever the window: an absolute
  rank from 0 below \<open>2 ^ 64\<close>, or a fraction from 0 to 1 when normalized.
\<close>

fun well_formed :: "ctor \<Rightarrow> bool" where
  "well_formed (NewOrderStatistics NaN sk nz) = False"
| "well_formed (NewOrderStatistics (Num x) sk nz) = (0 \<le> x \<and> (if nz then x \<le> 1 else x < 2 ^ 64))"
| "well_formed c = True"

text \<open>
  Index arithmetic on natural numbers, for the proofs about the traversal: the row-major
  offset of an index vector in an array of the given extents, the value of an index
  vector read as a number with its first digit least significant, and the successor of
  such a number (none when every digit is at its maximum).
\<close>

fun row_major :: "nat list \<Rightarrow> nat list \<Rightarrow> nat" where
  "row_major (d # ds) (i # is) = i * prod_list ds + row_major ds is"
| "row_major ds is = 0"

fun little_endian :: "nat list \<Rightarrow> nat list \<Rightarrow> nat" where
  "little_endian (d # ds) (i # is) = i + d * little_endian ds is"
| "little_endian ds is = 0"

fun increment :: "nat list \<Rightarrow> nat list \<Rightarrow> nat list option" where
  "increment (d # ds) (i # is) =
     (if i = d - 1 then map_option ((#) 0) (increment ds is) else Some (Suc i # is))"
| "increment ds is = None"

text \<open>
  The lane through an index vector along the axis, as it reads in a buffer, and the
  state of the buffer when the first \<open>k\<close> lanes, in the order of the traversal, have been
  rolled: an element of these lanes holds the statistic of its trailing window in the
  lane of the original buffer, every other element is as it was.
\<close>

definition lane :: "nat list \<Rightarrow> nat \<Rightarrow> D list \<Rightarrow> nat list \<Rightarrow> D list" where
  "lane ds axis a x = map (\<lambda>j. a ! row_major ds (x[axis := j])) [0 ..< ds ! axis]"

definition lanes_done :: "ctor \<Rightarrow> nat \<Rightarrow> nat \<Rightarrow> nat list \<Rightarrow> nat \<Rightarrow> D list \<Rightarrow> nat \<Rightarrow> D list \<Rightarrow> bool" where
  "lanes_done c W M ds axis orig k a \<longleftrightarrow>
     length a = length orig
     \<and> (\<forall>x. list_all2 (<) x ds \<longrightarrow>
          a ! row_major ds x =
            (if little_endian (ds[axis := 1]) (x[axis := 0]) < k
             then rolled c W M (lane ds axis orig x) (x ! axis)
             else orig ! row_major ds x))"

definition lanes_inv :: "ctor \<Rightarrow> nat \<Rightarrow> nat \<Rightarrow> size_t list \<Rightarrow> nat \<Rightarrow> D list \<Rightarrow> nat \<Rightarrow> roll_state \<Rightarrow> bool" where
  "lanes_inv c W M shape axis orig k st \<longleftrightarrow>
     length (indices st) = length shape
     \<and> current_axis st = first_axis axis
     \<and> list_all2 (<) ((map unat (indices st))[axis := 0]) ((map unat shape)[axis := 1])
     \<and> little_endian ((map unat shape)[axis := 1]) ((map unat (indices st))[axis := 0]) = k
     \<and> lanes_done c W M (map unat shape) axis orig k (arr st)
     \<and> (\<exists>wl. tracks c (eng st) wl)"

section \<open>The engines keep track of the window\<close>

declare evict_back_max.simps [simp del] evict_back_min.simps [simp del] roll_axis.simps [simp del] carry.simps [simp del]

lemma vals_simps [simp]:
  "vals [] = []" "vals (NaN # w) = vals w" "vals (Num x # w) = x # vals w"
  "vals (w @ [NaN]) = vals w" "vals (w @ [Num x]) = vals w @ [x]"
  by (simp_all add: vals_def)

lemma nans_simps [simp]:
  "nans [] = []" "nans (NaN # w) = NaN # nans w" "nans (Num x # w) = nans w"
  "nans (w @ [NaN]) = nans w @ [NaN]" "nans (w @ [Num x]) = nans w"
  by (simp_all add: nans_def)

lemma psum_simps [simp]:
  "psum j [] = 0" "psum j (NaN # w) = psum j w" "psum j (Num x # w) = x ^ j + psum j w"
  "psum j (w @ [NaN]) = psum j w" "psum j (w @ [Num x]) = psum j w + x ^ j"
  by (simp_all add: psum_def)

lemma sq_simps [simp]: "sq NaN = NaN" "sq (Num x) = Num (x ^ 2)"
  by (simp_all add: sq_def power2_eq_square)

lemma cu_simps [simp]: "cu NaN = NaN" "cu (Num x) = Num (x ^ 3)"
  by (simp_all add: cu_def power3_eq_cube)

lemma push_mean_tracks:
  "tracks_mean sk s w \<Longrightarrow> \<exists>s'. push_mean val s = Inr s' \<and> tracks_mean sk s' (w @ [val])"
  by (cases val) (auto simp: tracks_mean_def counts_def push_mean_def push_aux_def Let_def)

lemma push_variance_tracks:
  "tracks_variance sk s w \<Longrightarrow> \<exists>s'. push_variance val s = Inr s' \<and> tracks_variance sk s' (w @ [val])"
  by (cases val) (auto simp: tracks_variance_def counts_def push_variance_def push_aux_def Let_def sq_def[symmetric])

lemma push_skewness_tracks:
  "tracks_skewness sk s w \<Longrightarrow> \<exists>s'. push_skewness val s = Inr s' \<and> tracks_skewness sk s' (w @ [val])"
  by (cases val) (auto simp: tracks_skewness_def counts_def push_skewness_def push_aux_def Let_def sq_def[symmetric] cu_def[symmetric] power3_eq_cube power2_eq_square)

lemma push_zscore_tracks:
  "tracks_zscore sk s (w, l) \<Longrightarrow> \<exists>s'. push_zscore val s = Inr s' \<and> tracks_zscore sk s' (w @ [val], Some val)"
  by (cases val; cases l; cases "the l")
     (auto simp: tracks_zscore_def counts_def push_zscore_def push_aux_def pop_aux_def Let_def slot_def slot_value_def sq_def[symmetric])

lemma upt_2: "[0 ..< 2] = [0, 1]"
  by (simp add: numeral_2_eq_2)

lemma upt_3: "[0 ..< 3] = [0, 1, 2]"
  by (simp add: numeral_3_eq_3 numeral_2_eq_2)

lemma pop_mean_tracks:
  "tracks_mean sk s w \<Longrightarrow> w \<noteq> [] \<Longrightarrow> \<exists>s'. pop_moment s = Inr s' \<and> tracks_mean sk s' (tl w)"
  by (cases w; cases "hd w")
     (auto simp: tracks_mean_def counts_def pop_moment_def pop_aux_def Let_def)

lemma pop_variance_tracks:
  "tracks_variance sk s w \<Longrightarrow> w \<noteq> [] \<Longrightarrow> \<exists>s'. pop_moment s = Inr s' \<and> tracks_variance sk s' (tl w)"
  by (cases w; cases "hd w")
     (auto simp: tracks_variance_def counts_def pop_moment_def pop_aux_def Let_def upt_2)

lemma pop_skewness_tracks:
  "tracks_skewness sk s w \<Longrightarrow> w \<noteq> [] \<Longrightarrow> \<exists>s'. pop_moment s = Inr s' \<and> tracks_skewness sk s' (tl w)"
  by (cases w; cases "hd w")
     (auto simp: tracks_skewness_def counts_def pop_moment_def pop_aux_def Let_def upt_3)

lemma pop_zscore_tracks:
  "tracks_zscore sk s (w, l) \<Longrightarrow> w \<noteq> [] \<Longrightarrow> \<exists>s'. pop_zscore s = Inr s' \<and> tracks_zscore sk s' (tl w, l)"
  by (cases w; cases "hd w")
     (auto simp: tracks_zscore_def counts_def pop_zscore_def pop_aux_def Let_def)

lemma clear_mean_tracks: "tracks_mean sk s w \<Longrightarrow> tracks_mean sk (clear_moment s) []"
  by (auto simp: tracks_mean_def counts_def clear_moment_def)

lemma clear_variance_tracks: "tracks_variance sk s w \<Longrightarrow> tracks_variance sk (clear_moment s) []"
  by (auto simp: tracks_variance_def counts_def clear_moment_def numeral_2_eq_2)

lemma clear_skewness_tracks: "tracks_skewness sk s w \<Longrightarrow> tracks_skewness sk (clear_moment s) []"
  by (auto simp: tracks_skewness_def counts_def clear_moment_def numeral_3_eq_3)

lemma clear_zscore_tracks: "tracks_zscore sk s wl \<Longrightarrow> tracks_zscore sk (clear_moment s) ([], None)"
  by (auto simp: tracks_zscore_def counts_def clear_moment_def numeral_3_eq_3 slot_def slot_value_def)

lemma new_mean_tracks: "tracks_mean sk (new_mean sk) []"
  by (auto simp: tracks_mean_def counts_def new_mean_def new_moment_def clear_moment_def)

lemma new_variance_tracks: "tracks_variance sk (new_variance sk) []"
  by (auto simp: tracks_variance_def counts_def new_variance_def new_moment_def clear_moment_def numeral_2_eq_2)

lemma new_skewness_tracks: "tracks_skewness sk (new_skewness sk) []"
  by (auto simp: tracks_skewness_def counts_def new_skewness_def new_moment_def clear_moment_def numeral_3_eq_3)

lemma new_zscore_tracks: "tracks_zscore sk (new_zscore sk) ([], None)"
  by (auto simp: tracks_zscore_def counts_def new_zscore_def new_moment_def clear_moment_def numeral_3_eq_3 slot_def slot_value_def)

lemma cands_max_append: "cands_max (xs @ [v]) = filter (\<lambda>x. \<not> x < v) (cands_max xs) @ [v]"
  by (induction xs) (auto simp: not_less)

lemma set_cands_max: "set (cands_max xs) \<subseteq> set xs"
  by (induction xs) auto

lemma cands_max_descending: "sorted_wrt (\<lambda>a b. b \<le> a) (cands_max xs)"
  using set_cands_max by (induction xs) auto

lemma cands_max_nonempty: "xs \<noteq> [] \<Longrightarrow> cands_max xs \<noteq> []"
proof (induction xs)
  case Nil
  then show ?case by simp
next
  case (Cons x xs)
  show ?case
  proof (cases "\<forall>y\<in>set xs. y \<le> x")
    case True
    then show ?thesis by simp
  next
    case False
    then have "xs \<noteq> []" by auto
    then have "cands_max xs \<noteq> []" by (rule Cons.IH)
    moreover have "cands_max (x # xs) = cands_max xs" using False by simp
    ultimately show ?thesis by simp
  qed
qed

lemma hd_cands_max: "xs \<noteq> [] \<Longrightarrow> hd (cands_max xs) = Max (set xs)"
proof (induction xs)
  case Nil
  then show ?case by simp
next
  case (Cons x xs)
  show ?case
  proof (cases "\<forall>y\<in>set xs. y \<le> x")
    case True
    then have "Max (insert x (set xs)) = x"
      by (intro Max_eqI) auto
    with True show ?thesis by simp
  next
    case False
    then obtain y where y: "y \<in> set xs" "x < y" by auto
    then have ne: "xs \<noteq> []" by auto
    have "x < Max (set xs)"
      using y by (meson List.finite_set Max_ge less_le_trans)
    then have "Max (insert x (set xs)) = Max (set xs)"
      using ne by (simp add: max_def)
    moreover have "cands_max (x # xs) = cands_max xs" using False by simp
    ultimately show ?thesis using Cons.IH [OF ne] by simp
  qed
qed

lemma evict_back_max_nil [simp]: "evict_back_max val [] = []"
  by (subst evict_back_max.simps) simp

lemma evict_back_max_snoc:
  "evict_back_max val (ms @ [m]) = (if fless m val then evict_back_max val ms else ms @ [m])"
  by (subst evict_back_max.simps) simp

lemma evict_back_max_filter:
  "sorted_wrt (\<lambda>a b. b \<le> a) rs \<Longrightarrow>
   evict_back_max (Num v) (map Num rs) = map Num (filter (\<lambda>x. \<not> x < v) rs)"
proof (induction rs rule: rev_induct)
  case Nil
  then show ?case by simp
next
  case (snoc r rs)
  then have srt: "sorted_wrt (\<lambda>a b. b \<le> a) rs" and ge: "\<forall>x\<in>set rs. r \<le> x"
    by (auto simp: sorted_wrt_append)
  show ?case
  proof (cases "r < v")
    case True
    then show ?thesis using snoc.IH [OF srt] by (simp add: evict_back_max_snoc)
  next
    case False
    then have "\<forall>x\<in>set rs. \<not> x < v" using ge by fastforce
    then have "filter (\<lambda>x. \<not> x < v) rs = rs" by (simp add: filter_id_conv)
    with False show ?thesis by (simp add: evict_back_max_snoc)
  qed
qed

lemma push_max_tracks: "tracks_max sk s w \<Longrightarrow> tracks_max sk (push_max val s) (w @ [val])"
proof (cases val)
  case NaN
  assume "tracks_max sk s w"
  with NaN show ?thesis
    by (simp add: tracks_max_def counts_def push_max_def Let_def)
next
  case (Num x)
  assume t: "tracks_max sk s w"
  have "evict_back_max (Num x) (map Num (cands_max (vals w))) @ [Num x]
        = map Num (cands_max (vals w @ [x]))"
    by (simp add: evict_back_max_filter [OF cands_max_descending] cands_max_append)
  with Num t show ?thesis
    by (simp add: tracks_max_def counts_def push_max_def Let_def)
qed

lemma pop_max_tracks:
  assumes t: "tracks_max sk s (v # w')"
  shows "\<exists>s'. pop_max s = Inr s' \<and> tracks_max sk s' w'"
proof (cases v)
  case NaN
  with t show ?thesis
    by (simp add: tracks_max_def counts_def pop_max_def front_max_def Let_def)
next
  case (Num x)
  show ?thesis
  proof (cases "\<forall>y\<in>set (vals w'). y \<le> x")
    case True
    then have "cands_max (x # vals w') = x # cands_max (vals w')" by simp
    with Num t show ?thesis
      by (simp add: tracks_max_def counts_def pop_max_def front_max_def Let_def)
  next
    case False
    then obtain y where y: "y \<in> set (vals w')" "x < y" by auto
    then have ne: "vals w' \<noteq> []" by auto
    then obtain m ms where c: "cands_max (vals w') = m # ms"
      using cands_max_nonempty by (cases "cands_max (vals w')") auto
    have "m = Max (set (vals w'))"
      using hd_cands_max [OF ne] c by simp
    then have "x < m"
      using y by (meson List.finite_set Max_ge less_le_trans)
    moreover have "cands_max (x # vals w') = cands_max (vals w')" using False by simp
    ultimately show ?thesis using Num t c
      by (simp add: tracks_max_def counts_def pop_max_def front_max_def Let_def)
  qed
qed

lemma compute_aux_max_tracks:
  "tracks_max sk s w \<Longrightarrow> vals w \<noteq> [] \<Longrightarrow> compute_aux_max s = Inr (Num (Max (set (vals w))))"
  using hd_cands_max [of "vals w"] cands_max_nonempty [of "vals w"]
  by (cases "cands_max (vals w)") (simp_all add: tracks_max_def compute_aux_max_def)

lemma cands_min_append: "cands_min (xs @ [v]) = filter (\<lambda>x. \<not> v < x) (cands_min xs) @ [v]"
  by (induction xs) (auto simp: not_less)

lemma set_cands_min: "set (cands_min xs) \<subseteq> set xs"
  by (induction xs) auto

lemma cands_min_ascending: "sorted_wrt (\<lambda>a b. a \<le> b) (cands_min xs)"
  using set_cands_min by (induction xs) auto

lemma cands_min_nonempty: "xs \<noteq> [] \<Longrightarrow> cands_min xs \<noteq> []"
proof (induction xs)
  case Nil
  then show ?case by simp
next
  case (Cons x xs)
  show ?case
  proof (cases "\<forall>y\<in>set xs. x \<le> y")
    case True
    then show ?thesis by simp
  next
    case False
    then have "xs \<noteq> []" by auto
    then have "cands_min xs \<noteq> []" by (rule Cons.IH)
    moreover have "cands_min (x # xs) = cands_min xs" using False by simp
    ultimately show ?thesis by simp
  qed
qed

lemma hd_cands_min: "xs \<noteq> [] \<Longrightarrow> hd (cands_min xs) = Min (set xs)"
proof (induction xs)
  case Nil
  then show ?case by simp
next
  case (Cons x xs)
  show ?case
  proof (cases "\<forall>y\<in>set xs. x \<le> y")
    case True
    then have "Min (insert x (set xs)) = x"
      by (intro Min_eqI) auto
    with True show ?thesis by simp
  next
    case False
    then obtain y where y: "y \<in> set xs" "y < x" by auto
    then have ne: "xs \<noteq> []" by auto
    have lt: "Min (set xs) < x"
      using y by (meson List.finite_set Min_le le_less_trans)
    have "Min (insert x (set xs)) = min x (Min (set xs))"
      using ne by (intro Min_insert) simp_all
    also have "\<dots> = Min (set xs)"
      using lt by (intro min.absorb2) (rule less_imp_le)
    finally have "Min (insert x (set xs)) = Min (set xs)" .
    moreover have "cands_min (x # xs) = cands_min xs" using False by simp
    ultimately show ?thesis using Cons.IH [OF ne] by simp
  qed
qed

lemma evict_back_min_nil [simp]: "evict_back_min val [] = []"
  by (subst evict_back_min.simps) simp

lemma evict_back_min_snoc:
  "evict_back_min val (ms @ [m]) = (if fless val m then evict_back_min val ms else ms @ [m])"
  by (subst evict_back_min.simps) simp

lemma evict_back_min_filter:
  "sorted_wrt (\<lambda>a b. a \<le> b) rs \<Longrightarrow>
   evict_back_min (Num v) (map Num rs) = map Num (filter (\<lambda>x. \<not> v < x) rs)"
proof (induction rs rule: rev_induct)
  case Nil
  then show ?case by simp
next
  case (snoc r rs)
  then have srt: "sorted_wrt (\<lambda>a b. a \<le> b) rs" and le: "\<forall>x\<in>set rs. x \<le> r"
    by (auto simp: sorted_wrt_append)
  show ?case
  proof (cases "v < r")
    case True
    then show ?thesis using snoc.IH [OF srt] by (simp add: evict_back_min_snoc)
  next
    case False
    then have "\<forall>x\<in>set rs. \<not> v < x" using le by fastforce
    then have "filter (\<lambda>x. \<not> v < x) rs = rs" by (simp add: filter_id_conv)
    with False show ?thesis by (simp add: evict_back_min_snoc)
  qed
qed

lemma push_min_tracks: "tracks_min sk s w \<Longrightarrow> tracks_min sk (push_min val s) (w @ [val])"
proof (cases val)
  case NaN
  assume "tracks_min sk s w"
  with NaN show ?thesis
    by (simp add: tracks_min_def counts_def push_min_def Let_def)
next
  case (Num x)
  assume t: "tracks_min sk s w"
  have "evict_back_min (Num x) (map Num (cands_min (vals w))) @ [Num x]
        = map Num (cands_min (vals w @ [x]))"
    by (simp add: evict_back_min_filter [OF cands_min_ascending] cands_min_append)
  with Num t show ?thesis
    by (simp add: tracks_min_def counts_def push_min_def Let_def)
qed

lemma pop_min_tracks:
  assumes t: "tracks_min sk s (v # w')"
  shows "\<exists>s'. pop_min s = Inr s' \<and> tracks_min sk s' w'"
proof (cases v)
  case NaN
  with t show ?thesis
    by (simp add: tracks_min_def counts_def pop_min_def front_min_def Let_def)
next
  case (Num x)
  show ?thesis
  proof (cases "\<forall>y\<in>set (vals w'). x \<le> y")
    case True
    then have "cands_min (x # vals w') = x # cands_min (vals w')" by simp
    with Num t show ?thesis
      by (simp add: tracks_min_def counts_def pop_min_def front_min_def Let_def)
  next
    case False
    then obtain y where y: "y \<in> set (vals w')" "y < x" by auto
    then have ne: "vals w' \<noteq> []" by auto
    then obtain m ms where c: "cands_min (vals w') = m # ms"
      using cands_min_nonempty by (cases "cands_min (vals w')") auto
    have "m = Min (set (vals w'))"
      using hd_cands_min [OF ne] c by simp
    then have "m < x"
      using y by (meson List.finite_set Min_le le_less_trans)
    moreover have "cands_min (x # vals w') = cands_min (vals w')" using False by simp
    ultimately show ?thesis using Num t c
      by (simp add: tracks_min_def counts_def pop_min_def front_min_def Let_def)
  qed
qed

lemma compute_aux_min_tracks:
  "tracks_min sk s w \<Longrightarrow> vals w \<noteq> [] \<Longrightarrow> compute_aux_min s = Inr (Num (Min (set (vals w))))"
  using hd_cands_min [of "vals w"] cands_min_nonempty [of "vals w"]
  by (cases "cands_min (vals w)") (simp_all add: tracks_min_def compute_aux_min_def)

lemma ost_insert_sorted:
  "sorted rs \<Longrightarrow> \<exists>rs'. ost_insert (Num v) (map Num rs) = map Num rs' \<and> sorted rs'
      \<and> mset rs' = add_mset v (mset rs)"
proof (induction rs)
  case Nil
  then show ?case by (intro exI [of _ "[v]"]) simp
next
  case (Cons r rs)
  show ?case
  proof (cases "r \<le> v")
    case True
    from Cons obtain rs' where r: "ost_insert (Num v) (map Num rs) = map Num rs'" "sorted rs'"
      "mset rs' = add_mset v (mset rs)" by auto
    have "set rs' = insert v (set rs)"
      using r(3) by (metis set_mset_add_mset_insert set_mset_mset)
    then have "sorted (r # rs')" using r(2) True Cons.prems by auto
    with True r show ?thesis
      by (intro exI [of _ "r # rs'"]) simp
  next
    case False
    with Cons.prems show ?thesis
      by (intro exI [of _ "v # r # rs"]) auto
  qed
qed

lemma ost_insert_tracks: "tracks_ost t w \<Longrightarrow> tracks_ost (ost_insert (Num x) t) (w @ [Num x])"
proof -
  assume t: "tracks_ost t w"
  obtain rs' where r: "ost_insert (Num x) (map Num (sort (vals w))) = map Num rs'" "sorted rs'"
      "mset rs' = add_mset x (mset (sort (vals w)))"
    using ost_insert_sorted [of "sort (vals w)" x] by auto
  have "sort (vals w @ [x]) = rs'"
    using r by (intro properties_for_sort) simp_all
  with r t show ?thesis by (simp add: tracks_ost_def)
qed

lemma ost_erase_sorted:
  "sorted rs \<Longrightarrow> v \<in> set rs \<Longrightarrow>
   ost_erase_upper_bound (Num v) (map Num rs) = Inr (map Num (remove1 v rs))"
proof (induction rs)
  case Nil
  then show ?case by simp
next
  case (Cons r rs)
  show ?case
  proof (cases "v \<le> r")
    case True
    with Cons.prems have "r = v" by auto
    then show ?thesis by simp
  next
    case False
    with Cons show ?thesis by auto
  qed
qed

lemma ost_erase_tracks:
  assumes "tracks_ost t (Num x # w')"
  shows "ost_erase_upper_bound (Num x) t = Inr (map Num (sort (vals w')))"
proof -
  let ?rs = "sort (x # vals w')"
  have "sorted ?rs"
    by (rule sorted_sort)
  moreover have "x \<in> set ?rs"
    unfolding set_sort by simp
  ultimately have e: "ost_erase_upper_bound (Num x) (map Num ?rs) = Inr (map Num (remove1 x ?rs))"
    by (rule ost_erase_sorted)
  have "mset (remove1 x ?rs) = mset (vals w')"
    by (simp only: mset_remove1 mset_sort) simp
  moreover have "sorted (remove1 x ?rs)"
    by (intro sorted_remove1 sorted_sort)
  ultimately have "sort (vals w') = remove1 x ?rs"
    by (rule properties_for_sort)
  then have "ost_erase_upper_bound (Num x) (map Num ?rs) = Inr (map Num (sort (vals w')))"
    using e by (simp only:)
  moreover have "t = map Num ?rs"
    using assms by (simp add: tracks_ost_def)
  ultimately show ?thesis by (simp only:)
qed

lemma tracks_ost_nan: "tracks_ost t w \<Longrightarrow> tracks_ost t (w @ [NaN])" "tracks_ost t (NaN # w) \<Longrightarrow> tracks_ost t w"
  by (simp_all add: tracks_ost_def)

lemma push_rank_tracks: "tracks_rank sk nz s w \<Longrightarrow> tracks_rank sk nz (push_rank val s) (w @ [val])"
  by (cases val) (simp_all add: tracks_rank_def counts_def push_rank_def Let_def tracks_ost_nan ost_insert_tracks)

lemma push_os_tracks: "tracks_os r sk nz s w \<Longrightarrow> tracks_os r sk nz (push_os val s) (w @ [val])"
  by (cases val) (simp_all add: tracks_os_def counts_def push_os_def Let_def tracks_ost_nan ost_insert_tracks)

lemma pop_rank_tracks:
  assumes t: "tracks_rank sk nz s (v # w')"
  shows "\<exists>s'. pop_rank s = Inr s' \<and> tracks_rank sk nz s' w'"
proof (cases v)
  case NaN
  with t show ?thesis
    by (simp add: tracks_rank_def counts_def pop_rank_def front_rank_def Let_def tracks_ost_nan)
next
  case (Num x)
  with t have "ost_erase_upper_bound (Num x) (ost_rank s) = Inr (map Num (sort (vals w')))"
    by (intro ost_erase_tracks) (simp add: tracks_rank_def)
  with Num t show ?thesis
    by (simp add: tracks_rank_def counts_def pop_rank_def front_rank_def Let_def tracks_ost_def)
qed

lemma pop_os_tracks:
  assumes t: "tracks_os r sk nz s (v # w')"
  shows "\<exists>s'. pop_os s = Inr s' \<and> tracks_os r sk nz s' w'"
proof (cases v)
  case NaN
  with t show ?thesis
    by (simp add: tracks_os_def counts_def pop_os_def front_os_def Let_def tracks_ost_nan)
next
  case (Num x)
  with t have "ost_erase_upper_bound (Num x) (ost s) = Inr (map Num (sort (vals w')))"
    by (intro ost_erase_tracks) (simp add: tracks_os_def)
  with Num t show ?thesis
    by (simp add: tracks_os_def counts_def pop_os_def front_os_def Let_def tracks_ost_def)
qed

lemma tracks_construct: "tracks c (construct c) ([], None)"
  by (cases c)
     (simp_all add: new_mean_tracks new_variance_tracks new_skewness_tracks new_zscore_tracks
        tracks_max_def tracks_min_def tracks_rank_def tracks_os_def tracks_ost_def counts_def
        new_max_def new_min_def new_rank_def new_os_def clear_max_def clear_min_def
        clear_rank_def clear_os_def)

lemma tracks_clear: "tracks c e wl \<Longrightarrow> tracks c (clear e) ([], None)"
  by (cases c; cases e)
     (auto simp: tracks_max_def tracks_min_def tracks_rank_def tracks_os_def tracks_ost_def counts_def
        clear_max_def clear_min_def clear_rank_def clear_os_def
        intro: clear_mean_tracks clear_variance_tracks clear_skewness_tracks clear_zscore_tracks)

lemma tracks_push: "tracks c e (w, l) \<Longrightarrow> \<exists>e'. push val e = Inr e' \<and> tracks c e' (w @ [val], Some val)"
proof (cases c; cases e)
qed (auto simp: push_max_tracks push_min_tracks push_rank_tracks push_os_tracks
      dest: push_mean_tracks [where val = val] push_variance_tracks [where val = val]
            push_skewness_tracks [where val = val] push_zscore_tracks [where val = val])

lemma tracks_pop: "tracks c e (v # w, l) \<Longrightarrow> \<exists>e'. pop e = Inr e' \<and> tracks c e' (w, l)"
proof (cases c; cases e)
qed (auto dest: pop_mean_tracks pop_variance_tracks pop_skewness_tracks pop_zscore_tracks
            pop_max_tracks pop_min_tracks pop_rank_tracks pop_os_tracks)

lemma tracks_run:
  "window_after ops wl = Some wl' \<Longrightarrow> tracks c e wl \<Longrightarrow> \<exists>e'. run ops e = Inr e' \<and> tracks c e' wl'"
proof (induction ops wl arbitrary: e rule: window_after.induct)
  case (1 wl)
  then show ?case by simp
next
  case (2 val ps w l)
  from tracks_push [OF 2(3)] obtain e1 where "push val e = Inr e1" "tracks c e1 (w @ [val], Some val)"
    by blast
  with 2 show ?case by simp
next
  case (3 ps w l)
  then obtain v w' where w: "w = v # w'" by (cases w) (auto split: if_splits)
  with 3 tracks_pop [of c e v w' l] obtain e1 where "pop e = Inr e1" "tracks c e1 (w', l)"
    by blast
  with 3 w show ?case by simp
next
  case (4 ps w l)
  from tracks_clear [OF 4(3)] 4 show ?case by simp
qed

lemma tracks_counts: "tracks c e wl \<Longrightarrow> counts (base e) (skips c) (fst wl)"
  by (cases c; cases e)
     (auto simp: tracks_mean_def tracks_variance_def tracks_skewness_def tracks_zscore_def
        tracks_max_def tracks_min_def tracks_rank_def tracks_os_def counts_def
        RollingStatistics.truncate_def)

lemma unat_of_nat64: "n < 2 ^ 64 \<Longrightarrow> unat (of_nat n :: 64 word) = n"
  by (simp add: unat_of_nat)

lemma of_nat64_eq_0:
  assumes "n < 2 ^ 64"
  shows "(of_nat n :: 64 word) = 0 \<longleftrightarrow> n = 0"
proof
  assume a: "(of_nat n :: 64 word) = 0"
  have "unat (of_nat n :: 64 word) = n"
    using assms by (rule unat_of_nat64)
  with a show "n = 0" by simp
next
  assume "n = 0"
  then show "(of_nat n :: 64 word) = 0" by simp
qed

lemma window_after_count:
  "window_after ops (w, l) = Some (w', l') \<Longrightarrow> length w + q = p \<Longrightarrow>
   length w' + snd (count_ops ops (p, q)) = fst (count_ops ops (p, q))"
proof (induction ops arbitrary: w l p q)
  case Nil
  then show ?case by simp
next
  case (Cons a ops)
  show ?case
  proof (cases a)
    case (Push val)
    with Cons.prems Cons.IH [of "w @ [val]" "Some val" q "p + 1"] show ?thesis by simp
  next
    case Pop
    with Cons.prems have ne: "w \<noteq> []" by (auto split: if_splits)
    with Pop Cons.prems Cons.IH [of "tl w" l "q + 1" p] show ?thesis by (cases w) simp_all
  next
    case Clear
    with Cons.prems Cons.IH [of "[]" None 0 0] show ?thesis by simp
  qed
qed

lemma window_length: "window_after ops ([], None) = Some (w, l) \<Longrightarrow> length w + pops ops = pushes ops"
  using window_after_count [of ops "[]" None w l 0 0] by (simp add: pushes_def pops_def)

lemma length_nans_vals: "length (nans w) + length (vals w) = length w"
  by (simp add: nans_def vals_def sum_length_filter_compl)

lemma counts_size: "counts s sk w \<Longrightarrow> size_rs s = of_nat (length w)"
  using length_nans_vals [of w] by (simp add: counts_def size_rs_def flip: of_nat_add)

lemma push_counters:
  "tracks c e (w, l) \<Longrightarrow> \<exists>e'. push val e = Inr e'
     \<and> size_nan_e e' = size_nan_e e + (if isnan val then 1 else 0)
     \<and> size_notnan_e e' = size_notnan_e e + (if isnan val then 0 else 1)"
proof -
  assume t: "tracks c e (w, l)"
  then obtain e' where e': "push val e = Inr e'" "tracks c e' (w @ [val], Some val)"
    using tracks_push by blast
  from tracks_counts [OF t] tracks_counts [OF e'(2)] e'(1) show ?thesis
    by (cases val) (simp_all add: counts_def size_nan_e_def size_notnan_e_def size_nan_def size_notnan_def)
qed

lemma pop_counters:
  "tracks c e (v # w, l) \<Longrightarrow> \<exists>e'. pop e = Inr e'
     \<and> size_nan_e e' = size_nan_e e - (if isnan v then 1 else 0)
     \<and> size_notnan_e e' = size_notnan_e e - (if isnan v then 0 else 1)"
proof -
  assume t: "tracks c e (v # w, l)"
  then obtain e' where e': "pop e = Inr e'" "tracks c e' (w, l)"
    using tracks_pop by blast
  from tracks_counts [OF t] tracks_counts [OF e'(2)] e'(1) show ?thesis
    by (cases v) (simp_all add: counts_def size_nan_e_def size_notnan_e_def size_nan_def size_notnan_def)
qed

text \<open>
  Claim C2. For every engine and every sequence of clear, push and pop operations whose
  pops never exceed the pushes since the last clear, the operations run without a fault
  and \<open>size()\<close> is \<open>size_nan() + size_notnan()\<close> and is the number of pushes
  minus the number of pops since the last clear (as a \<open>size_t\<close>, and as a number
  when that fits 64 bits). From there, a push adds one to exactly one of the two
  counters and a pop takes one from exactly one of them.
\<close>

theorem size_counts_window:
  assumes "window_after ops ([], None) = Some (w, l)"
  shows "\<exists>e. run ops (construct c) = Inr e
           \<and> size_e e = size_nan_e e + size_notnan_e e
           \<and> pops ops \<le> pushes ops
           \<and> size_e e = of_nat (pushes ops - pops ops)
           \<and> (pushes ops - pops ops < 2 ^ 64 \<longrightarrow> unat (size_e e) = pushes ops - pops ops)
           \<and> (\<forall>val. \<exists>e'. push val e = Inr e'
                 \<and> size_nan_e e' = size_nan_e e + (if isnan val then 1 else 0)
                 \<and> size_notnan_e e' = size_notnan_e e + (if isnan val then 0 else 1))
           \<and> (\<forall>v w'. w = v # w' \<longrightarrow> (\<exists>e'. pop e = Inr e'
                 \<and> size_nan_e e' = size_nan_e e - (if isnan v then 1 else 0)
                 \<and> size_notnan_e e' = size_notnan_e e - (if isnan v then 0 else 1)))"
proof -
  from tracks_run [OF assms tracks_construct] obtain e
    where e: "run ops (construct c) = Inr e" "tracks c e (w, l)" by blast
  have len: "length w = pushes ops - pops ops" and c2: "pops ops \<le> pushes ops"
    using window_length [OF assms] by simp_all
  have "size_e e = of_nat (length w)"
    using counts_size [OF tracks_counts [OF e(2)]] by (simp add: size_e_def)
  then have c3: "size_e e = of_nat (pushes ops - pops ops)"
    by (simp only: len)
  have c1: "size_e e = size_nan_e e + size_notnan_e e"
    by (simp add: size_e_def size_nan_e_def size_notnan_e_def size_rs_def size_nan_def size_notnan_def)
  have c4: "pushes ops - pops ops < 2 ^ 64 \<longrightarrow> unat (size_e e) = pushes ops - pops ops"
  proof
    assume "pushes ops - pops ops < 2 ^ 64"
    then show "unat (size_e e) = pushes ops - pops ops"
      unfolding c3 by (rule unat_of_nat64)
  qed
  have c5: "\<forall>val. \<exists>e'. push val e = Inr e'
                 \<and> size_nan_e e' = size_nan_e e + (if isnan val then 1 else 0)
                 \<and> size_notnan_e e' = size_notnan_e e + (if isnan val then 0 else 1)"
    by (rule allI) (rule push_counters [OF e(2)])
  have c6: "\<forall>v w'. w = v # w' \<longrightarrow> (\<exists>e'. pop e = Inr e'
                 \<and> size_nan_e e' = size_nan_e e - (if isnan v then 1 else 0)
                 \<and> size_notnan_e e' = size_notnan_e e - (if isnan v then 0 else 1))"
  proof (intro allI impI)
    fix v w'
    assume "w = v # w'"
    with e(2) have "tracks c e (v # w', l)" by simp
    then show "\<exists>e'. pop e = Inr e'
                 \<and> size_nan_e e' = size_nan_e e - (if isnan v then 1 else 0)
                 \<and> size_notnan_e e' = size_notnan_e e - (if isnan v then 0 else 1)"
      by (rule pop_counters)
  qed
  from e(1) c1 c2 c3 c4 c5 c6 show ?thesis
    by (intro exI [of _ e] conjI)
qed

theorem size_counts_window_witness:
  "window_after [Push (Num 1), Push NaN, Push (Num 2), Pop] ([], None) = Some ([NaN, Num 2], Some (Num 2))
   \<and> (\<exists>e. run [Push (Num 1), Push NaN, Push (Num 2), Pop] (construct (NewMax True)) = Inr e
         \<and> size_e e = size_nan_e e + size_notnan_e e
         \<and> size_e e = of_nat (pushes [Push (Num 1), Push NaN, Push (Num 2), Pop]
                             - pops [Push (Num 1), Push NaN, Push (Num 2), Pop]))"
proof -
  have w: "window_after [Push (Num 1), Push NaN, Push (Num 2), Pop] ([], None) = Some ([NaN, Num 2], Some (Num 2))"
    by simp
  from size_counts_window [OF w, of "NewMax True"] obtain e where
    "run [Push (Num 1), Push NaN, Push (Num 2), Pop] (construct (NewMax True)) = Inr e"
    "size_e e = size_nan_e e + size_notnan_e e"
    "size_e e = of_nat (pushes [Push (Num 1), Push NaN, Push (Num 2), Pop]
                             - pops [Push (Num 1), Push NaN, Push (Num 2), Pop])"
    by (elim exE conjE)
  with w show ?thesis by (intro conjI exI [of _ e])
qed

lemma length_vals_le: "length (vals w) \<le> length w" "length (nans w) \<le> length w"
  by (simp_all add: vals_def nans_def)

lemma of_size_t_count: "n < 2 ^ 64 \<Longrightarrow> of_size_t (of_nat n) = Num (real n)"
  by (simp add: of_size_t_def unat_of_nat64)

lemma gate_counts:
  assumes "counts s sk w" "length w < 2 ^ 64"
  shows "(num_vals_notnan s = 0 \<longleftrightarrow> vals w = [])" "(0 < num_vals_nan s \<longleftrightarrow> nans w \<noteq> [])"
    "(gate s \<longleftrightarrow> vals w = [] \<or> (\<not> sk \<and> nans w \<noteq> []))"
proof -
  have b: "length (vals w) < 2 ^ 64" "length (nans w) < 2 ^ 64"
    using length_vals_le [of w] assms(2) by simp_all
  show 1: "num_vals_notnan s = 0 \<longleftrightarrow> vals w = []"
    using assms(1) of_nat64_eq_0 [OF b(1)] by (simp add: counts_def)
  show 2: "0 < num_vals_nan s \<longleftrightarrow> nans w \<noteq> []"
    using assms(1) of_nat64_eq_0 [OF b(2)] by (simp add: counts_def word_greater_zero_iff)
  show "gate s \<longleftrightarrow> vals w = [] \<or> (\<not> sk \<and> nans w \<noteq> [])"
    using assms(1) 1 2 by (simp add: gate_def counts_def)
qed

lemma psum_1 [simp]: "psum (Suc 0) w = sum_list (vals w)"
  by (simp add: psum_def)




lemma gate_tracks:
  assumes "tracks c e (w, l)" "length w < 2 ^ 64"
  shows "gate (base e) \<longleftrightarrow> vals w = [] \<or> (\<not> skips c \<and> nans w \<noteq> [])"
    "size_notnan_e e = 0 \<longleftrightarrow> vals w = []" "0 < size_nan_e e \<longleftrightarrow> nans w \<noteq> []"
    "skip_nan (base e) = skips c"
proof -
  have c: "counts (base e) (skips c) w"
    using tracks_counts [OF assms(1)] by simp
  show "gate (base e) \<longleftrightarrow> vals w = [] \<or> (\<not> skips c \<and> nans w \<noteq> [])"
    by (rule gate_counts(3) [OF c assms(2)])
  show "size_notnan_e e = 0 \<longleftrightarrow> vals w = []"
    using gate_counts(1) [OF c assms(2)] by (simp add: size_notnan_e_def size_notnan_def)
  show "0 < size_nan_e e \<longleftrightarrow> nans w \<noteq> []"
    using gate_counts(2) [OF c assms(2)] by (simp add: size_nan_e_def size_nan_def)
  show "skip_nan (base e) = skips c"
    using c by (simp add: counts_def)
qed

text \<open>
  Claim C3. After any operations that respect the window (fewer than \<open>2 ^ 64\<close> values
  in it), \<open>compute()\<close> returns NaN exactly when the non-NaN count is zero, or the engine
  was constructed in propagate mode and the NaN count is positive, or the formula of
  the statistic yields NaN; otherwise it returns what the formula returns. The two
  counts are zero, respectively positive, exactly when the window has no non-NaN value,
  respectively has a NaN.
\<close>

theorem compute_gate:
  assumes "window_after ops ([], None) = Some (w, l)" "length w < 2 ^ 64"
  shows "\<exists>e. run ops (construct c) = Inr e
     \<and> (compute e = Inr NaN \<longleftrightarrow>
          size_notnan_e e = 0 \<or> (\<not> skips c \<and> 0 < size_nan_e e) \<or> compute_aux e = Inr NaN)
     \<and> (\<not> (size_notnan_e e = 0 \<or> (\<not> skips c \<and> 0 < size_nan_e e)) \<longrightarrow> compute e = compute_aux e)
     \<and> skip_nan (base e) = skips c
     \<and> (size_notnan_e e = 0 \<longleftrightarrow> vals w = [])
     \<and> (0 < size_nan_e e \<longleftrightarrow> nans w \<noteq> [])"
proof -
  from tracks_run [OF assms(1) tracks_construct] obtain e
    where e: "run ops (construct c) = Inr e" "tracks c e (w, l)" by blast
  note g = gate_tracks [OF e(2) assms(2)]
  have gd: "gate (base e) \<longleftrightarrow> size_notnan_e e = 0 \<or> (\<not> skips c \<and> 0 < size_nan_e e)"
    using g(4) by (simp add: gate_def size_notnan_e_def size_notnan_def size_nan_e_def size_nan_def)
  have c1: "compute e = Inr NaN \<longleftrightarrow>
          size_notnan_e e = 0 \<or> (\<not> skips c \<and> 0 < size_nan_e e) \<or> compute_aux e = Inr NaN"
    unfolding compute_def using gd by auto
  have c2: "\<not> (size_notnan_e e = 0 \<or> (\<not> skips c \<and> 0 < size_nan_e e)) \<longrightarrow> compute e = compute_aux e"
    unfolding compute_def using gd by auto
  from e(1) c1 c2 g(4) g(2) g(3) show ?thesis
    by (intro exI [of _ e] conjI)
qed

theorem compute_gate_witness:
  "window_after [Push (Num 1), Push NaN] ([], None) = Some ([Num 1, NaN], Some NaN)
   \<and> length [Num 1, NaN] < (2::nat) ^ 64
   \<and> (\<exists>e. run [Push (Num 1), Push NaN] (construct (NewMax False)) = Inr e
        \<and> (compute e = Inr NaN \<longleftrightarrow>
             size_notnan_e e = 0 \<or> (\<not> skips (NewMax False) \<and> 0 < size_nan_e e) \<or> compute_aux e = Inr NaN)
        \<and> (0 < size_nan_e e \<longleftrightarrow> nans [Num 1, NaN] \<noteq> []))"
proof -
  have w: "window_after [Push (Num 1), Push NaN] ([], None) = Some ([Num 1, NaN], Some NaN)"
    and b: "length [Num 1, NaN] < (2::nat) ^ 64"
    by simp_all
  from compute_gate [OF w b, of "NewMax False"] obtain e where
    "run [Push (Num 1), Push NaN] (construct (NewMax False)) = Inr e"
    "compute e = Inr NaN \<longleftrightarrow>
             size_notnan_e e = 0 \<or> (\<not> skips (NewMax False) \<and> 0 < size_nan_e e) \<or> compute_aux e = Inr NaN"
    "0 < size_nan_e e \<longleftrightarrow> nans [Num 1, NaN] \<noteq> []"
    by (elim exE conjE)
  with w b show ?thesis by (intro conjI exI [of _ e])
qed

text \<open>
  Claim C10. After any sequence of clear, push and pop operations (pops never exceeding
  pushes) on a mean, variance or skewness engine, there are \<open>num_moments\<close> queues, the
  first holds the window itself, NaN entries included, the second the squares and the
  third the cubes of its entries, position by position; so every queue has the length
  of the window, which is \<open>size()\<close>, every push has appended one entry to each queue
  and every pop has removed the oldest entry of each.
\<close>

theorem moment_queues_aligned:
  assumes "window_after ops ([], None) = Some (w, l)"
  shows "(\<exists>s. run ops (construct (NewMean sk)) = Inr (MeanE s)
            \<and> num_moments s = 1 \<and> vecs_in_window s = [w]
            \<and> (\<forall>q\<in>set (vecs_in_window s). length q = length w \<and> of_nat (length q) = size_rs s))
       \<and> (\<exists>s. run ops (construct (NewVariance sk)) = Inr (VarianceE s)
            \<and> num_moments s = 2 \<and> vecs_in_window s = [w, map sq w]
            \<and> (\<forall>q\<in>set (vecs_in_window s). length q = length w \<and> of_nat (length q) = size_rs s))
       \<and> (\<exists>s. run ops (construct (NewSkewness sk)) = Inr (SkewnessE s)
            \<and> num_moments s = 3 \<and> vecs_in_window s = [w, map sq w, map cu w]
            \<and> (\<forall>q\<in>set (vecs_in_window s). length q = length w \<and> of_nat (length q) = size_rs s))"
proof (intro conjI)
  from tracks_run [OF assms tracks_construct [of "NewMean sk"]] obtain e
    where e: "run ops (construct (NewMean sk)) = Inr e" "tracks (NewMean sk) e (w, l)" by blast
  then obtain s where s: "e = MeanE s" "tracks_mean sk s w"
    by (cases e) simp_all
  have "size_rs s = of_nat (length w)"
    using s(2) by (intro counts_size [of s sk w]) (simp add: tracks_mean_def)
  with e(1) s show "\<exists>s. run ops (construct (NewMean sk)) = Inr (MeanE s)
            \<and> num_moments s = 1 \<and> vecs_in_window s = [w]
            \<and> (\<forall>q\<in>set (vecs_in_window s). length q = length w \<and> of_nat (length q) = size_rs s)"
    by (intro exI [of _ s]) (simp add: tracks_mean_def)
next
  from tracks_run [OF assms tracks_construct [of "NewVariance sk"]] obtain e
    where e: "run ops (construct (NewVariance sk)) = Inr e" "tracks (NewVariance sk) e (w, l)" by blast
  then obtain s where s: "e = VarianceE s" "tracks_variance sk s w"
    by (cases e) simp_all
  have "size_rs s = of_nat (length w)"
    using s(2) by (intro counts_size [of s sk w]) (simp add: tracks_variance_def)
  with e(1) s show "\<exists>s. run ops (construct (NewVariance sk)) = Inr (VarianceE s)
            \<and> num_moments s = 2 \<and> vecs_in_window s = [w, map sq w]
            \<and> (\<forall>q\<in>set (vecs_in_window s). length q = length w \<and> of_nat (length q) = size_rs s)"
    by (intro exI [of _ s]) (simp add: tracks_variance_def)
next
  from tracks_run [OF assms tracks_construct [of "NewSkewness sk"]] obtain e
    where e: "run ops (construct (NewSkewness sk)) = Inr e" "tracks (NewSkewness sk) e (w, l)" by blast
  then obtain s where s: "e = SkewnessE s" "tracks_skewness sk s w"
    by (cases e) simp_all
  have "size_rs s = of_nat (length w)"
    using s(2) by (intro counts_size [of s sk w]) (simp add: tracks_skewness_def)
  with e(1) s show "\<exists>s. run ops (construct (NewSkewness sk)) = Inr (SkewnessE s)
            \<and> num_moments s = 3 \<and> vecs_in_window s = [w, map sq w, map cu w]
            \<and> (\<forall>q\<in>set (vecs_in_window s). length q = length w \<and> of_nat (length q) = size_rs s)"
    by (intro exI [of _ s]) (simp add: tracks_skewness_def)
qed

theorem moment_queues_aligned_witness:
  "window_after [Push (Num 3), Push NaN, Push (Num 2), Pop] ([], None) = Some ([NaN, Num 2], Some (Num 2))
   \<and> (\<exists>s. run [Push (Num 3), Push NaN, Push (Num 2), Pop] (construct (NewSkewness True)) = Inr (SkewnessE s)
        \<and> num_moments s = 3 \<and> vecs_in_window s = [[NaN, Num 2], [NaN, Num 4], [NaN, Num 8]])"
proof -
  have w: "window_after [Push (Num 3), Push NaN, Push (Num 2), Pop] ([], None) = Some ([NaN, Num 2], Some (Num 2))"
    by simp
  from moment_queues_aligned [OF w, of True] obtain s where
    "run [Push (Num 3), Push NaN, Push (Num 2), Pop] (construct (NewSkewness True)) = Inr (SkewnessE s)"
    "num_moments s = 3" "vecs_in_window s = [[NaN, Num 2], map sq [NaN, Num 2], map cu [NaN, Num 2]]"
    by (elim exE conjE)
  with w show ?thesis by (intro conjI exI [of _ s]) simp_all
qed

text \<open>
  Claim C7. After any sequence of operations on a z-score engine, queue 1 holds exactly
  the value pushed last since the last clear (nothing before the first push), however
  many pops there were. From such a state, \<open>pop()\<close> removes the oldest entry of queues 0
  and 2 and leaves queue 1 and its accumulator as they are, and \<open>push(val)\<close> leaves
  exactly \<open>val\<close> in queue 1, the former occupant evicted; its accumulator is then
  \<open>val\<close>, or 0 when \<open>val\<close> is NaN.
\<close>

theorem zscore_current_value_slot:
  assumes "window_after ops ([], None) = Some (w, l)"
  shows "\<exists>s. run ops (construct (NewZScore sk)) = Inr (ZScoreE s)
     \<and> vecs_in_window s = [w, slot l, map sq w]
     \<and> (\<forall>val. \<exists>s'. push_zscore val s = Inr s'
           \<and> vecs_in_window s' = [w @ [val], [val], map sq w @ [sq val]]
           \<and> unnormalized_moments s' ! 1 = (if isnan val then Num 0 else val))
     \<and> (w \<noteq> [] \<longrightarrow> (\<exists>s'. pop_zscore s = Inr s'
           \<and> vecs_in_window s' = [tl w, slot l, tl (map sq w)]
           \<and> unnormalized_moments s' ! 1 = unnormalized_moments s ! 1))"
proof -
  from tracks_run [OF assms tracks_construct [of "NewZScore sk"]] obtain e
    where e: "run ops (construct (NewZScore sk)) = Inr e" "tracks (NewZScore sk) e (w, l)" by blast
  then obtain s where s: "e = ZScoreE s" "tracks_zscore sk s (w, l)"
    by (cases e) simp_all
  have c1: "vecs_in_window s = [w, slot l, map sq w]"
    using s(2) by (simp add: tracks_zscore_def)
  have c2: "\<forall>val. \<exists>s'. push_zscore val s = Inr s'
           \<and> vecs_in_window s' = [w @ [val], [val], map sq w @ [sq val]]
           \<and> unnormalized_moments s' ! 1 = (if isnan val then Num 0 else val)"
  proof
    fix val
    from push_zscore_tracks [OF s(2), of val] obtain s' where
      s': "push_zscore val s = Inr s'" "tracks_zscore sk s' (w @ [val], Some val)" by blast
    from s'(2) have "vecs_in_window s' = [w @ [val], [val], map sq w @ [sq val]]"
      "unnormalized_moments s' ! 1 = (if isnan val then Num 0 else val)"
      by (cases val; simp add: tracks_zscore_def slot_def slot_value_def)+
    with s'(1) show "\<exists>s'. push_zscore val s = Inr s'
           \<and> vecs_in_window s' = [w @ [val], [val], map sq w @ [sq val]]
           \<and> unnormalized_moments s' ! 1 = (if isnan val then Num 0 else val)"
      by (intro exI [of _ s'] conjI)
  qed
  have c3: "w \<noteq> [] \<longrightarrow> (\<exists>s'. pop_zscore s = Inr s'
           \<and> vecs_in_window s' = [tl w, slot l, tl (map sq w)]
           \<and> unnormalized_moments s' ! 1 = unnormalized_moments s ! 1)"
  proof
    assume ne: "w \<noteq> []"
    from pop_zscore_tracks [OF s(2) ne] obtain s' where
      s': "pop_zscore s = Inr s'" "tracks_zscore sk s' (tl w, l)" by blast
    from s'(2) s(2) have "vecs_in_window s' = [tl w, slot l, tl (map sq w)]"
      "unnormalized_moments s' ! 1 = unnormalized_moments s ! 1"
      by (simp_all add: tracks_zscore_def map_tl)
    with s'(1) show "\<exists>s'. pop_zscore s = Inr s'
           \<and> vecs_in_window s' = [tl w, slot l, tl (map sq w)]
           \<and> unnormalized_moments s' ! 1 = unnormalized_moments s ! 1"
      by (intro exI [of _ s'] conjI)
  qed
  from e(1) s(1) c1 c2 c3 show ?thesis
    by (intro exI [of _ s] conjI) simp_all
qed

theorem zscore_current_value_slot_witness:
  "window_after [Push (Num 3), Push (Num 7), Pop, Pop] ([], None) = Some ([], Some (Num 7))
   \<and> (\<exists>s. run [Push (Num 3), Push (Num 7), Pop, Pop] (construct (NewZScore True)) = Inr (ZScoreE s)
        \<and> vecs_in_window s = [[], [Num 7], []])"
proof -
  have w: "window_after [Push (Num 3), Push (Num 7), Pop, Pop] ([], None) = Some ([], Some (Num 7))"
    by simp
  from zscore_current_value_slot [OF w, of True] obtain s where
    "run [Push (Num 3), Push (Num 7), Pop, Pop] (construct (NewZScore True)) = Inr (ZScoreE s)"
    "vecs_in_window s = [[], slot (Some (Num 7)), map sq []]"
    by (elim exE conjE)
  with w show ?thesis by (intro conjI exI [of _ s]) (simp_all add: slot_def)
qed

lemma compute_passes_gate:
  assumes "tracks c e (w, l)" "length w < 2 ^ 64" "vals w \<noteq> []" "skips c \<or> nans w = []"
  shows "compute e = compute_aux e"
  using gate_tracks(1) [OF assms(1,2)] assms(3,4) by (auto simp: compute_def)

lemma notnan_count:
  assumes "counts s sk w" "length w < 2 ^ 64"
  shows "of_size_t (num_vals_notnan s) = Num (real (length (vals w)))"
proof -
  have "length (vals w) < 2 ^ 64"
    using length_vals_le(1) [of w] assms(2) by simp
  then show ?thesis
    using assms(1) by (simp add: counts_def of_size_t_count)
qed







lemma min_of_nat64:
  assumes "a < 2 ^ 64" "b < 2 ^ 64"
  shows "min (of_nat a :: 64 word) (of_nat b) = of_nat (min a b)"
proof -
  have "(of_nat a :: 64 word) \<le> of_nat b \<longleftrightarrow> a \<le> b"
    using assms by (simp add: word_le_nat_alt unat_of_nat64)
  then show ?thesis by (simp add: min_def)
qed

lemma compute_aux_os_tracks:
  assumes t: "tracks_os (Num x) sk nz s w" and b: "length w < 2 ^ 64" and ne: "vals w \<noteq> []"
    and r: "r = (if nz then x * real (length (vals w)) else x)" "- 1 < r" "r < 2 ^ 64"
  shows "compute_aux_os s = Inr (Num (sort (vals w) ! min (length (vals w) - 1) (nat \<lfloor>r\<rfloor>)))"
proof -
  let ?n = "length (vals w)"
  have nb: "?n < 2 ^ 64" using length_vals_le(1) [of w] b by simp
  have n1: "?n - 1 < 2 ^ 64" using nb by simp
  have kb: "nat \<lfloor>r\<rfloor> < 2 ^ 64"
  proof -
    have fl: "\<lfloor>r\<rfloor> < 2 ^ 64" using r(3) by (simp add: floor_less_iff)
    show ?thesis
    proof (cases "0 \<le> \<lfloor>r\<rfloor>")
      case True
      with fl show ?thesis by (simp add: nat_less_iff)
    next
      case False
      then show ?thesis by simp
    qed
  qed
  have c: "counts s sk w" and o: "ost s = map Num (sort (vals w))" and nzs: "normalize s = nz"
    and ord: "order s = Num x"
    using t by (simp_all add: tracks_os_def tracks_ost_def)
  have nn: "num_vals_notnan s = of_nat ?n" using c by (simp add: counts_def)
  have arg: "(if normalize s then fmul (order s) (of_size_t (num_vals_notnan s)) else order s) = Num r"
    using notnan_count [OF c b] r(1) nzs ord by simp
  have cast: "to_size_t (Num r) = Inr (of_nat (nat \<lfloor>r\<rfloor>))"
    using r(2,3) by simp
  have "num_vals_notnan s - 1 = of_nat (?n - 1)"
    using ne nn by (cases "vals w") simp_all
  then have ro: "min (num_vals_notnan s - 1) (of_nat (nat \<lfloor>r\<rfloor>)) = of_nat (min (?n - 1) (nat \<lfloor>r\<rfloor>))"
    using min_of_nat64 [OF n1 kb] by simp
  have mb: "min (?n - 1) (nat \<lfloor>r\<rfloor>) < 2 ^ 64" using n1 by simp
  have ml: "min (?n - 1) (nat \<lfloor>r\<rfloor>) < ?n" using ne by (cases "vals w") simp_all
  have u: "unat (of_nat (min (?n - 1) (nat \<lfloor>r\<rfloor>)) :: 64 word) = min (?n - 1) (nat \<lfloor>r\<rfloor>)"
    by (rule unat_of_nat64 [OF mb])
  show ?thesis
    unfolding compute_aux_os_def arg cast and_then.simps Let_def ro find_by_order_def o u
    using ml by simp
qed





text \<open>
  Claim C4, as the code has it. After any sequence of operations on a maximum
  (respectively minimum) engine whose window has a non-NaN value and, in propagate mode,
  no NaN, \<open>compute()\<close> is the maximum (respectively minimum) of the non-NaN values in
  the window, repeated and tied values included.
\<close>

theorem extremum_is_window_extremum:
  assumes "window_after ops ([], None) = Some (w, l)" "length w < 2 ^ 64"
    and "vals w \<noteq> []" "sk \<or> nans w = []"
  shows "compute_after (NewMax sk) ops = Inr (Num (Max (set (vals w))))
     \<and> compute_after (NewMin sk) ops = Inr (Num (Min (set (vals w))))"
proof
  from tracks_run [OF assms(1) tracks_construct [of "NewMax sk"]] obtain e
    where e: "run ops (construct (NewMax sk)) = Inr e" "tracks (NewMax sk) e (w, l)" by blast
  then obtain s where s: "e = MaxE s" "tracks_max sk s w"
    by (cases e) simp_all
  have "compute e = compute_aux e"
    using assms(4) by (intro compute_passes_gate [OF e(2) assms(2,3)]) simp
  with e(1) s(1) compute_aux_max_tracks [OF s(2) assms(3)]
  show "compute_after (NewMax sk) ops = Inr (Num (Max (set (vals w))))"
    by (simp add: compute_after_def)
next
  from tracks_run [OF assms(1) tracks_construct [of "NewMin sk"]] obtain e
    where e: "run ops (construct (NewMin sk)) = Inr e" "tracks (NewMin sk) e (w, l)" by blast
  then obtain s where s: "e = MinE s" "tracks_min sk s w"
    by (cases e) simp_all
  have "compute e = compute_aux e"
    using assms(4) by (intro compute_passes_gate [OF e(2) assms(2,3)]) simp
  with e(1) s(1) compute_aux_min_tracks [OF s(2) assms(3)]
  show "compute_after (NewMin sk) ops = Inr (Num (Min (set (vals w))))"
    by (simp add: compute_after_def)
qed

text \<open>
  The claim as stated fails in propagate mode: with 1 and NaN in the window the maximum
  and the minimum of the non-NaN values are 1, and \<open>compute()\<close> is NaN.
\<close>

theorem extremum_propagate_counterexample:
  "window_after [Push (Num 1), Push NaN] ([], None) = Some ([Num 1, NaN], Some NaN)
   \<and> vals [Num 1, NaN] = [1]
   \<and> compute_after (NewMax False) [Push (Num 1), Push NaN] = Inr NaN
   \<and> compute_after (NewMin False) [Push (Num 1), Push NaN] = Inr NaN"
  by (simp add: compute_after_def new_max_def clear_max_def push_max_def new_min_def clear_min_def
      push_min_def compute_def gate_def RollingStatistics.truncate_def Let_def)

theorem extremum_is_window_extremum_witness:
  "window_after [Push (Num 2), Push (Num 5), Push NaN, Push (Num 5), Push (Num 3), Pop, Pop] ([], None)
     = Some ([NaN, Num 5, Num 3], Some (Num 3))
   \<and> length [NaN, Num 5, Num 3] < (2::nat) ^ 64
   \<and> vals [NaN, Num 5, Num 3] \<noteq> []
   \<and> compute_after (NewMax True) [Push (Num 2), Push (Num 5), Push NaN, Push (Num 5), Push (Num 3), Pop, Pop]
       = Inr (Num 5)
   \<and> compute_after (NewMin True) [Push (Num 2), Push (Num 5), Push NaN, Push (Num 5), Push (Num 3), Pop, Pop]
       = Inr (Num 3)"
proof -
  have w: "window_after [Push (Num 2), Push (Num 5), Push NaN, Push (Num 5), Push (Num 3), Pop, Pop] ([], None)
     = Some ([NaN, Num 5, Num 3], Some (Num 3))"
    and b: "length [NaN, Num 5, Num 3] < (2::nat) ^ 64"
    and v: "vals [NaN, Num 5, Num 3] \<noteq> []"
    and s: "True \<or> nans [NaN, Num 5, Num 3] = []"
    by simp_all
  from extremum_is_window_extremum [OF w b v s]
  have "compute_after (NewMax True) [Push (Num 2), Push (Num 5), Push NaN, Push (Num 5), Push (Num 3), Pop, Pop]
       = Inr (Num 5)"
    "compute_after (NewMin True) [Push (Num 2), Push (Num 5), Push NaN, Push (Num 5), Push (Num 3), Pop, Pop]
       = Inr (Num 3)"
    by simp_all
  with w b v show ?thesis by (intro conjI)
qed

lemma carry_in_range:
  "carry shape axis st = Inr st' \<Longrightarrow> current_axis st' < length shape"
proof (induction shape axis st rule: carry.induct)
  case (1 shape axis st)
  then show ?case
    by (subst (asm) (2) carry.simps) (auto split: if_splits)
qed

lemma next_lane_goes_on: "next_lane shape axis st \<noteq> Inr (True, st')"
proof
  assume a: "next_lane shape axis st = Inr (True, st')"
  then show False
    by (auto simp: next_lane_def Let_def split: if_splits sum.splits dest: carry_in_range)
qed

lemma roll_lanes_faults:
  assumes "roll_lanes shape axis strides window min_periods st = Some r"
  shows "\<exists>fs. r = Inl fs"
proof (rule roll_lanes.raw_induct
    [where P = "\<lambda>shape axis strides window min_periods st r. \<exists>fs. r = Inl fs", OF _ assms],
    goal_cases)
  case (1 rl shape axis strides window min_periods st r)
  show ?case
  proof (cases "start_lane shape axis strides st")
    case (Inl fs)
    with 1(2) show ?thesis by auto
  next
    case st1: (Inr st1)
    show ?thesis
    proof (cases "roll_axis shape axis strides window min_periods st1")
      case (Inl fs)
      with 1(2) st1 show ?thesis by auto
    next
      case st2: (Inr st2)
      show ?thesis
      proof (cases "next_lane shape axis st2")
        case (Inl fs)
        with 1(2) st1 st2 show ?thesis by auto
      next
        case (Inr p)
        obtain stop st3 where p: "p = (stop, st3)" by (cases p)
        with Inr next_lane_goes_on [of shape axis st2 st3] have "\<not> stop" by auto
        with 1(2) st1 st2 Inr p have "rl shape axis strides window min_periods st3 = Some r"
          by simp
        then show ?thesis by (rule 1(1))
      qed
    qed
  qed
qed

text \<open>
  Every call of \<open>roll_ndarray\<close> that ends, ends in a fault: the only way out of the
  outer loop is the \<open>break\<close>, behind a carry loop that has just read \<open>indices\<close> and
  \<open>shape\<close> at a position that is not below \<open>ndim\<close>.
\<close>

lemma roll_ndarray_never_returns:
  "roll_ndarray e ptr_arr shape axis window min_periods strides \<noteq> Some (None, e', arr')"
proof
  assume a: "roll_ndarray e ptr_arr shape axis window min_periods strides = Some (None, e', arr')"
  then obtain st strides' r where
    r: "roll_lanes shape axis strides' window min_periods st = Some r" "seen r = (None, e', arr')"
    by (auto simp: roll_ndarray_def Let_def split: if_splits)
  from roll_lanes_faults [OF r(1)] obtain f st' where "r = Inl (f, st')" by auto
  with r(2) show False by simp
qed

text \<open>
  Claim C9. A call of \<open>roll_ndarray\<close> with non-empty strides whose length differs from
  the length of the shape fails an assertion before anything is written: the buffer,
  and the engine, are as they were.
\<close>

theorem rank_mismatch_is_rejected:
  assumes "strides \<noteq> []" "length strides \<noteq> length shape"
  shows "roll_ndarray e ptr_arr shape axis window min_periods strides
           = Some (Some AssertionFailed, e, ptr_arr)"
  using assms by (simp add: roll_ndarray_def Let_def)

theorem rank_mismatch_is_rejected_witness:
  "[12, 3 :: size_t] \<noteq> [] \<and> length [12, 3 :: size_t] \<noteq> length [4 :: size_t]
   \<and> roll_ndarray (construct (NewMean True)) [Num 1, NaN, Num 3, Num 4] [4] 0 2 1 [12, 3]
        = Some (Some AssertionFailed, construct (NewMean True), [Num 1, NaN, Num 3, Num 4])"
proof -
  have h: "[12, 3 :: size_t] \<noteq> []" "length [12, 3 :: size_t] \<noteq> length [4 :: size_t]"
    by simp_all
  from rank_mismatch_is_rejected [OF h] h show ?thesis
    by (intro conjI)
qed

lemma tracks_mean_unique: "tracks_mean sk s w \<Longrightarrow> tracks_mean sk s' w \<Longrightarrow> s = s'"
  by (rule RollingMomentStatistics.equality) (simp_all add: tracks_mean_def counts_def)

lemma tracks_variance_unique: "tracks_variance sk s w \<Longrightarrow> tracks_variance sk s' w \<Longrightarrow> s = s'"
  by (rule RollingMomentStatistics.equality) (simp_all add: tracks_variance_def counts_def)

lemma tracks_skewness_unique: "tracks_skewness sk s w \<Longrightarrow> tracks_skewness sk s' w \<Longrightarrow> s = s'"
  by (rule RollingMomentStatistics.equality) (simp_all add: tracks_skewness_def counts_def)

lemma tracks_zscore_unique: "tracks_zscore sk s wl \<Longrightarrow> tracks_zscore sk s' wl \<Longrightarrow> s = s'"
  by (rule RollingMomentStatistics.equality) (simp_all add: tracks_zscore_def counts_def)

lemma tracks_max_unique: "tracks_max sk s w \<Longrightarrow> tracks_max sk s' w \<Longrightarrow> s = s'"
  by (rule RollingMax.equality) (simp_all add: tracks_max_def counts_def)

lemma tracks_min_unique: "tracks_min sk s w \<Longrightarrow> tracks_min sk s' w \<Longrightarrow> s = s'"
  by (rule RollingMin.equality) (simp_all add: tracks_min_def counts_def)

lemma tracks_rank_unique: "tracks_rank sk nz s w \<Longrightarrow> tracks_rank sk nz s' w \<Longrightarrow> s = s'"
  by (rule RollingRank.equality) (simp_all add: tracks_rank_def counts_def tracks_ost_def)

lemma tracks_os_unique: "tracks_os r sk nz s w \<Longrightarrow> tracks_os r sk nz s' w \<Longrightarrow> s = s'"
  by (rule RollingOrderStatistics.equality) (simp_all add: tracks_os_def counts_def tracks_ost_def)

lemma tracks_unique: "tracks c e wl \<Longrightarrow> tracks c e' wl \<Longrightarrow> e = e'"
proof (cases c)
  case (NewMean sk)
  then show "tracks c e wl \<Longrightarrow> tracks c e' wl \<Longrightarrow> e = e'"
    by (cases e; cases e'; simp add: tracks_mean_unique)
next
  case (NewVariance sk)
  then show "tracks c e wl \<Longrightarrow> tracks c e' wl \<Longrightarrow> e = e'"
    by (cases e; cases e'; simp add: tracks_variance_unique)
next
  case (NewSkewness sk)
  then show "tracks c e wl \<Longrightarrow> tracks c e' wl \<Longrightarrow> e = e'"
    by (cases e; cases e'; simp add: tracks_skewness_unique)
next
  case (NewZScore sk)
  then show "tracks c e wl \<Longrightarrow> tracks c e' wl \<Longrightarrow> e = e'"
    by (cases e; cases e'; simp add: tracks_zscore_unique)
next
  case (NewMax sk)
  then show "tracks c e wl \<Longrightarrow> tracks c e' wl \<Longrightarrow> e = e'"
    by (cases e; cases e'; simp add: tracks_max_unique)
next
  case (NewMin sk)
  then show "tracks c e wl \<Longrightarrow> tracks c e' wl \<Longrightarrow> e = e'"
    by (cases e; cases e'; simp add: tracks_min_unique)
next
  case (NewRank sk nz)
  then show "tracks c e wl \<Longrightarrow> tracks c e' wl \<Longrightarrow> e = e'"
    by (cases e; cases e'; simp add: tracks_rank_unique)
next
  case (NewOrderStatistics r sk nz)
  then show "tracks c e wl \<Longrightarrow> tracks c e' wl \<Longrightarrow> e = e'"
    by (cases e; cases e'; simp add: tracks_os_unique)
qed

lemma compute_total:
  assumes t: "tracks c e (w, l)" and b: "length w < 2 ^ 64" and wf: "well_formed c"
  shows "\<exists>d. compute e = Inr d"
proof (cases "gate (base e)")
  case True
  then show ?thesis by (simp add: compute_def)
next
  case False
  then have v: "vals w \<noteq> []"
    using gate_tracks(1) [OF t b] by simp
  have nb: "length (vals w) < 2 ^ 64" using length_vals_le(1) [of w] b by simp
  have "\<exists>d. compute_aux e = Inr d"
  proof (cases c)
    case (NewMean sk)
    with t obtain s where "e = MeanE s" "tracks_mean sk s w" by (cases e) simp_all
    then show ?thesis
      by (simp add: compute_aux_mean_def moment_at_def tracks_mean_def)
  next
    case (NewVariance sk)
    with t obtain s where "e = VarianceE s" "tracks_variance sk s w" by (cases e) simp_all
    then show ?thesis
      by (simp add: compute_aux_variance_def moment_at_def tracks_variance_def Let_def)
  next
    case (NewSkewness sk)
    with t obtain s where "e = SkewnessE s" "tracks_skewness sk s w" by (cases e) simp_all
    then show ?thesis
      by (simp add: compute_aux_skewness_def moment_at_def tracks_skewness_def Let_def)
  next
    case (NewZScore sk)
    with t obtain s where "e = ZScoreE s" "tracks_zscore sk s (w, l)" by (cases e) simp_all
    then show ?thesis
      by (simp add: compute_aux_zscore_def moment_at_def tracks_zscore_def Let_def)
  next
    case (NewMax sk)
    with t obtain s where "e = MaxE s" "tracks_max sk s w" by (cases e) simp_all
    then show ?thesis
      using compute_aux_max_tracks [OF _ v] by simp
  next
    case (NewMin sk)
    with t obtain s where "e = MinE s" "tracks_min sk s w" by (cases e) simp_all
    then show ?thesis
      using compute_aux_min_tracks [OF _ v] by simp
  next
    case (NewRank sk nz)
    with t obtain s where s: "e = RankE s" "tracks_rank sk nz s w" by (cases e) simp_all
    have "w \<noteq> []" using v by auto
    with s show ?thesis
      by (simp add: compute_aux_rank_def tracks_rank_def Let_def)
  next
    case (NewOrderStatistics r sk nz)
    with t obtain s where s: "e = OrderStatisticsE s" "tracks_os r sk nz s w" by (cases e) simp_all
    from wf NewOrderStatistics obtain x where x: "r = Num x" "0 \<le> x" "if nz then x \<le> 1 else x < 2 ^ 64"
      by (cases r) auto
    define q where "q = (if nz then x * real (length (vals w)) else x)"
    have q1: "- 1 < q"
      using x(2) by (simp add: q_def) (smt (verit) mult_nonneg_nonneg of_nat_0_le_iff)
    have q2: "q < 2 ^ 64"
    proof (cases nz)
      case True
      then have "q \<le> real (length (vals w))"
        using x by (simp add: q_def mult_left_le_one_le)
      also have "\<dots> < 2 ^ 64" using nb by (metis of_nat_less_iff of_nat_numeral of_nat_power)
      finally show ?thesis .
    next
      case False
      with x show ?thesis by (simp add: q_def)
    qed
    from compute_aux_os_tracks [OF s(2) [unfolded x(1)] b v q_def q1 q2] s(1) show ?thesis by simp
  qed
  with False show ?thesis by (simp add: compute_def)
qed

lemma window_after_pushes:
  "window_after (map Push w) (w0, l0) = Some (w0 @ w, if w = [] then l0 else Some (last w))"
  by (induction w arbitrary: w0 l0) auto

lemma compute_after_pushes:
  assumes t: "tracks c e (w, l)" and b: "length w < 2 ^ 64" and wf: "well_formed c"
    and l: "w \<noteq> [] \<longrightarrow> l = Some (last w)"
  shows "compute e = Inr (result_of (compute_after c (map Push w)))"
proof -
  have "window_after (map Push w) ([], None) = Some (w, if w = [] then None else Some (last w))"
    using window_after_pushes [of w "[]" None] by simp
  from tracks_run [OF this tracks_construct [of c]] obtain e'
    where e': "run (map Push w) (construct c) = Inr e'"
      "tracks c e' (w, if w = [] then None else Some (last w))" by blast
  have "compute e = compute e'"
  proof (cases "w = []")
    case True
    then have "gate (base e)" "gate (base e')"
      using gate_tracks(1) [OF t b] gate_tracks(1) [of c e' w None] e'(2) by simp_all
    then show ?thesis by (simp add: compute_def)
  next
    case False
    with l e'(2) t have "e = e'" by (intro tracks_unique [of c e "(w, l)" e']) simp_all
    then show ?thesis by simp
  qed
  then have eq: "compute e' = compute e" by simp
  obtain d where d: "compute e = Inr d" using compute_total [OF t b wf] by blast
  have "compute_after c (map Push w) = Inr d"
    using e'(1) eq d by (simp add: compute_after_def)
  then show ?thesis using d by (simp add: result_of_def)
qed

lemma word_le_of_nat64: "i < 2 ^ 64 \<Longrightarrow> (W :: 64 word) \<le> of_nat i \<longleftrightarrow> unat W \<le> i"
  by (simp add: word_le_nat_alt unat_of_nat64)

lemma of_nat_le_word64: "i < 2 ^ 64 \<Longrightarrow> of_nat i \<le> (W :: 64 word) \<longleftrightarrow> i \<le> unat W"
  by (simp add: word_le_nat_alt unat_of_nat64)

lemma window_at_step:
  assumes "i < length xs"
  shows "(if W \<le> i then tl (drop (i - W) (take i xs) @ [xs ! i]) else drop (i - W) (take i xs) @ [xs ! i])
         = window_at W xs i"
proof -
  have a: "drop (i - W) (take i xs) @ [xs ! i] = drop (i - W) (take (Suc i) xs)"
    using assms by (simp add: take_Suc_conv_app_nth)
  show ?thesis
  proof (cases "W \<le> i")
    case True
    then have "Suc i - W = Suc (i - W)" by simp
    with True a show ?thesis
      by (simp add: window_at_def drop_Suc tl_drop)
  next
    case False
    then have "i - W = 0" "Suc i - W = 0" by simp_all
    with False a show ?thesis by (simp add: window_at_def)
  qed
qed

lemma window_at_last:
  assumes "i < length xs" "window_at W xs i \<noteq> []"
  shows "last (window_at W xs i) = xs ! i"
proof -
  have "take (Suc i) xs \<noteq> []" using assms(1) by (cases xs) simp_all
  have "last (window_at W xs i) = last (take (Suc i) xs)"
    using assms(2) unfolding window_at_def by (simp add: last_drop)
  also have "\<dots> = xs ! i"
    using assms(1) by (simp add: take_Suc_conv_app_nth)
  finally show ?thesis .
qed

lemma window_at_length: "length (window_at W xs i) \<le> Suc i"
  by (simp add: window_at_def)

text \<open>One pass of the loop over the axis, on an engine that tracks the window so far.\<close>

lemma roll_step_tracks:
  assumes t: "tracks c (eng st) (drop (i - unat window) (take i xs), l)"
    and wf: "well_formed c"
    and i: "i < length xs" "length xs < 2 ^ 64" "indices st ! axis = of_nat i"
    and p: "unat (scalar_index st) < length (arr st)" "arr st ! unat (scalar_index st) = xs ! i"
  shows "\<exists>e'. roll_step axis strides window min_periods st
           = Inr (st\<lparr>eng := e',
                    arr := (arr st)[unat (scalar_index st) := rolled c (unat window) (unat min_periods) xs i],
                    scalar_index := scalar_index st + strides ! axis\<rparr>)
         \<and> tracks c e' (window_at (unat window) xs i, Some (xs ! i))"
proof -
  let ?pre = "drop (i - unat window) (take i xs)"
  let ?w = "window_at (unat window) xs i"
  have ib: "i < 2 ^ 64" using i(1,2) by simp
  from tracks_push [OF t, of "xs ! i"] obtain e1 where
    e1: "push (xs ! i) (eng st) = Inr e1" "tracks c e1 (?pre @ [xs ! i], Some (xs ! i))" by blast
  have "\<exists>e2. (if indices st ! axis \<ge> window then pop e1 else Inr e1) = Inr e2
          \<and> tracks c e2 (?w, Some (xs ! i))"
  proof (cases "unat window \<le> i")
    case True
    obtain v w' where vw: "?pre @ [xs ! i] = v # w'" by (cases "?pre @ [xs ! i]") simp_all
    with e1(2) tracks_pop [of c e1 v w' "Some (xs ! i)"] obtain e2 where
      e2: "pop e1 = Inr e2" "tracks c e2 (w', Some (xs ! i))" by auto
    have "w' = tl (?pre @ [xs ! i])" using vw by simp
    also have "\<dots> = ?w" using window_at_step [OF i(1), of "unat window"] True by simp
    finally have "w' = ?w" .
    with e2 True show ?thesis by (simp add: i(3) word_le_of_nat64 [OF ib])
  next
    case False
    then have "?pre @ [xs ! i] = ?w" using window_at_step [OF i(1), of "unat window"] by simp
    with e1(2) False show ?thesis by (simp add: i(3) word_le_of_nat64 [OF ib])
  qed
  then obtain e2 where e2: "(if indices st ! axis \<ge> window then pop e1 else Inr e1) = Inr e2"
    "tracks c e2 (?w, Some (xs ! i))" by blast
  have wb: "length ?w < 2 ^ 64"
    using window_at_length [of "unat window" xs i] i(1,2) by simp
  have vb: "length (vals ?w) < 2 ^ 64"
    using length_vals_le(1) [of ?w] wb by simp
  have "counts (base e2) (skips c) ?w"
    using tracks_counts [OF e2(2)] by simp
  then have "size_notnan_e e2 = of_nat (length (vals ?w))"
    by (simp add: counts_def size_notnan_e_def size_notnan_def)
  then have ge: "size_notnan_e e2 \<ge> min_periods \<longleftrightarrow> unat min_periods \<le> length (vals ?w)"
    by (simp add: word_le_of_nat64 [OF vb])
  have "?w \<noteq> [] \<longrightarrow> Some (xs ! i) = Some (last ?w)"
    using window_at_last [OF i(1)] by auto
  from compute_after_pushes [OF e2(2) wb wf this]
  have cmp: "compute e2 = Inr (result_of (compute_after c (map Push ?w)))" .
  have r: "(if size_notnan_e e2 \<ge> min_periods then compute e2 else Inr NaN)
        = Inr (rolled c (unat window) (unat min_periods) xs i)"
    using ge cmp by (simp add: rolled_def Let_def)
  show ?thesis
    using p(1) e1(1) e2 r
    by (intro exI [of _ e2]) (simp add: roll_step_def p(2))
qed

lemma of_nat64_inj: "i < 2 ^ 64 \<Longrightarrow> n < 2 ^ 64 \<Longrightarrow> (of_nat i :: 64 word) = of_nat n \<longleftrightarrow> i = n"
  by (metis unat_of_nat64)

lemma lane_inv_step:
  assumes inv: "lane_inv c window min_periods xs pos axis (strides ! axis) st0 i st"
    and wf: "well_formed c"
    and ax: "axis < length (indices st0)"
    and n: "i < n" "length xs = n" "n < 2 ^ 64"
    and pos: "\<And>j. j < n \<Longrightarrow> unat (scalar_index st0 + of_nat j * strides ! axis) = pos j"
      "\<And>j. j < n \<Longrightarrow> pos j < length (arr st0)" "inj_on pos {..<n}"
    and xs: "\<And>j. j < n \<Longrightarrow> arr st0 ! pos j = xs ! j"
  shows "\<exists>st1. roll_step axis strides window min_periods st = Inr st1
     \<and> lane_inv c window min_periods xs pos axis (strides ! axis) st0 (Suc i)
          (st1\<lparr>indices := (indices st)[axis := indices st ! axis + 1]\<rparr>)"
proof -
  from inv obtain l where
    ind: "indices st = (indices st0)[axis := of_nat i]"
    and sc: "scalar_index st = scalar_index st0 + of_nat i * strides ! axis"
    and ca: "current_axis st = current_axis st0"
    and len: "length (arr st) = length (arr st0)"
    and wr: "\<forall>j<i. arr st ! pos j = rolled c (unat window) (unat min_periods) xs j"
    and rest: "\<forall>p<length (arr st0). (\<forall>j<i. pos j \<noteq> p) \<longrightarrow> arr st ! p = arr st0 ! p"
    and t: "tracks c (eng st) (drop (i - unat window) (take i xs), l)"
    unfolding lane_inv_def by blast
  have pi: "unat (scalar_index st) = pos i" using pos(1) [OF n(1)] sc by simp
  have fresh: "\<forall>j<i. pos j \<noteq> pos i"
  proof (intro allI impI)
    fix j assume "j < i"
    then have "j \<in> {..<n}" "i \<in> {..<n}" "j \<noteq> i" using n(1) by simp_all
    then show "pos j \<noteq> pos i" using pos(3) by (meson inj_onD)
  qed
  have rd: "arr st ! pos i = xs ! i"
    using rest pos(2) [OF n(1)] fresh xs [OF n(1)] by simp
  have ia: "indices st ! axis = of_nat i" using ind ax by simp
  from roll_step_tracks [OF t wf _ _ ia, of strides min_periods] n pi pos(2) [OF n(1)] len rd
  obtain e' where
    rs: "roll_step axis strides window min_periods st
           = Inr (st\<lparr>eng := e',
                    arr := (arr st)[pos i := rolled c (unat window) (unat min_periods) xs i],
                    scalar_index := scalar_index st + strides ! axis\<rparr>)"
    and t': "tracks c e' (window_at (unat window) xs i, Some (xs ! i))"
    by auto
  let ?st1 = "st\<lparr>eng := e',
                    arr := (arr st)[pos i := rolled c (unat window) (unat min_periods) xs i],
                    scalar_index := scalar_index st + strides ! axis\<rparr>"
  let ?st2 = "?st1\<lparr>indices := (indices st)[axis := indices st ! axis + 1]\<rparr>"
  have i1: "indices ?st2 = (indices st0)[axis := of_nat (Suc i)]"
    using ind ia by (simp add: add.commute)
  have i2: "scalar_index ?st2 = scalar_index st0 + of_nat (Suc i) * strides ! axis"
    using sc by (simp add: algebra_simps)
  have i3: "current_axis ?st2 = current_axis st0" using ca by simp
  have i4: "length (arr ?st2) = length (arr st0)" using len by simp
  have i5: "\<forall>j<Suc i. arr ?st2 ! pos j = rolled c (unat window) (unat min_periods) xs j"
  proof (intro allI impI)
    fix j assume j: "j < Suc i"
    show "arr ?st2 ! pos j = rolled c (unat window) (unat min_periods) xs j"
    proof (cases "j = i")
      case True
      then show ?thesis using pos(2) [OF n(1)] len by simp
    next
      case False
      with j have ji: "j < i" by simp
      with fresh have "pos j \<noteq> pos i" by simp
      with wr ji show ?thesis by simp
    qed
  qed
  have i6: "\<forall>p<length (arr st0). (\<forall>j<Suc i. pos j \<noteq> p) \<longrightarrow> arr ?st2 ! p = arr st0 ! p"
  proof (intro allI impI)
    fix p assume p: "p < length (arr st0)" "\<forall>j<Suc i. pos j \<noteq> p"
    then have "pos i \<noteq> p" "\<forall>j<i. pos j \<noteq> p" by simp_all
    with rest p(1) show "arr ?st2 ! p = arr st0 ! p" by simp
  qed
  have i7: "\<exists>l. tracks c (eng ?st2) (drop (Suc i - unat window) (take (Suc i) xs), l)"
    using t' by (auto simp: window_at_def)
  have "lane_inv c window min_periods xs pos axis (strides ! axis) st0 (Suc i) ?st2"
    unfolding lane_inv_def using i1 i2 i3 i4 i5 i6 i7 by blast
  with rs show ?thesis by (intro exI [of _ ?st1]) simp
qed

lemma roll_axis_lane:
  assumes inv: "lane_inv c window min_periods xs pos axis (strides ! axis) st0 i st"
    and wf: "well_formed c"
    and ax: "axis < length (indices st0)" "axis < length shape" "axis < length strides"
    and n: "i \<le> n" "length xs = n" "n = unat (shape ! axis)"
    and pos: "\<And>j. j < n \<Longrightarrow> unat (scalar_index st0 + of_nat j * strides ! axis) = pos j"
      "\<And>j. j < n \<Longrightarrow> pos j < length (arr st0)" "inj_on pos {..<n}"
    and xs: "\<And>j. j < n \<Longrightarrow> arr st0 ! pos j = xs ! j"
  shows "\<exists>st'. roll_axis shape axis strides window min_periods st = Inr st'
     \<and> lane_inv c window min_periods xs pos axis (strides ! axis) st0 n st'"
  using inv n(1)
proof (induction "n - i" arbitrary: i st)
  case 0
  then have "i = n" by simp
  with 0(2) have ind: "indices st = (indices st0)[axis := of_nat n]"
    by (simp add: lane_inv_def)
  have "indices st ! axis = shape ! axis"
    using ind ax(1) n(3) by simp
  moreover have "length (indices st) = length (indices st0)" using ind by simp
  ultimately have "roll_axis shape axis strides window min_periods st = Inr st"
    using ax by (subst roll_axis.simps) simp
  with 0(2) \<open>i = n\<close> show ?case by simp
next
  case (Suc k)
  then have lt: "i < n" by simp
  have nb: "n < 2 ^ 64" unfolding n(3) using unsigned_less [of "shape ! axis"] by simp
  from Suc(3) have ind: "indices st = (indices st0)[axis := of_nat i]"
    by (simp add: lane_inv_def)
  have ia: "indices st ! axis = of_nat i" using ind ax(1) by simp
  have "shape ! axis = of_nat n" using n(3) by simp
  with lt nb have ne: "indices st ! axis \<noteq> shape ! axis"
    using ia of_nat64_inj [of i n] by simp
  have li: "length (indices st) = length (indices st0)" using ind by simp
  from lane_inv_step [OF Suc(3) wf ax(1) lt n(2) nb pos xs] obtain st1 where
    st1: "roll_step axis strides window min_periods st = Inr st1"
      "lane_inv c window min_periods xs pos axis (strides ! axis) st0 (Suc i)
          (st1\<lparr>indices := (indices st)[axis := indices st ! axis + 1]\<rparr>)"
    by blast
  have "k = n - Suc i" using Suc(2) by simp
  from Suc(1) [OF this st1(2)] lt obtain st' where
    st': "roll_axis shape axis strides window min_periods
            (st1\<lparr>indices := (indices st)[axis := indices st ! axis + 1]\<rparr>) = Inr st'"
      "lane_inv c window min_periods xs pos axis (strides ! axis) st0 n st'"
    by auto
  have "roll_axis shape axis strides window min_periods st = Inr st'"
    using ax li ne st1(1) st'(1) by (subst roll_axis.simps) simp
  with st'(2) show ?case by blast
qed

lemma default_strides_one: "default_strides [n] = [1]"
  by (simp add: default_strides_def)

lemma carry_past_the_end:
  assumes "current_axis st \<ge> length (indices st) \<or> current_axis st \<ge> length shape"
  shows "carry shape axis st = Inl (UndefinedBehaviour, st)"
  using assms by (subst carry.simps) simp

text \<open>
  A one-dimensional array: every position of the buffer is written with the statistic of
  its trailing window, or NaN below \<open>min_periods\<close>, and the call then ends in the
  out-of-range read.
\<close>

lemma roll_ndarray_one_dimension:
  assumes t: "tracks c e wl" and wf: "well_formed c" and n: "n \<noteq> 0" "length ptr_arr = unat n"
  shows "\<exists>e'. roll_ndarray e ptr_arr [n] 0 window min_periods []
           = Some (Some UndefinedBehaviour, e',
               map (rolled c (unat window) (unat min_periods) ptr_arr) [0 ..< unat n])"
proof -
  let ?cleared = "\<lparr>eng = clear e, arr = ptr_arr, indices = [0], scalar_index = 0, current_axis = 0\<rparr>"
  let ?init = "\<lparr>eng = e, arr = ptr_arr, indices = [0 :: size_t], scalar_index = 0 :: size_t, current_axis = 0 :: nat\<rparr>"
  have pos: "0 < n" using n(1) by (simp add: word_greater_zero_iff)
  have sl: "start_lane [n] 0 [1] ?init = Inr ?cleared"
    using pos by (simp add: start_lane_def size_arr_of_def Let_def)
  have nb: "unat n < 2 ^ 64" using unsigned_less [of n] by simp
  have inv0: "lane_inv c window min_periods ptr_arr (\<lambda>j. j) 0 ([1] ! 0) ?cleared 0 ?cleared"
    using tracks_clear [OF t] by (auto simp: lane_inv_def)
  have p1: "\<And>j. j < unat n \<Longrightarrow> unat (scalar_index ?cleared + of_nat j * [1] ! 0) = j"
    using nb by (simp add: unat_of_nat64)
  have a1: "0 < length (indices ?cleared)" "(0::nat) < length [n]" "(0::nat) < length [1 :: size_t]"
    by simp_all
  have a2: "0 \<le> unat n" "length ptr_arr = unat n" "unat n = unat ([n] ! 0)"
    using n(2) by simp_all
  have p2: "\<And>j. j < unat n \<Longrightarrow> j < length (arr ?cleared)"
    using n(2) by simp
  have p3: "inj_on (\<lambda>j. j) {..<unat n}"
    by simp
  have p4: "\<And>j. j < unat n \<Longrightarrow> arr ?cleared ! j = ptr_arr ! j"
    by simp
  have "\<exists>st'. roll_axis [n] 0 [1] window min_periods ?cleared = Inr st'
     \<and> lane_inv c window min_periods ptr_arr (\<lambda>j. j) 0 ([1] ! 0) ?cleared (unat n) st'"
    by (rule roll_axis_lane [OF inv0 wf a1 a2 p1 p2 p3 p4])
  then obtain st' where st': "roll_axis [n] 0 [1] window min_periods ?cleared = Inr st'"
    "lane_inv c window min_periods ptr_arr (\<lambda>j. j) 0 ([1] ! 0) ?cleared (unat n) st'"
    by blast
  from st'(2) have ind: "indices st' = [n]" and ca: "current_axis st' = 0"
    and len: "length (arr st') = unat n"
    and vals: "\<forall>j<unat n. arr st' ! j = rolled c (unat window) (unat min_periods) ptr_arr j"
    using n(2) by (simp_all add: lane_inv_def)
  have arr: "arr st' = map (rolled c (unat window) (unat min_periods) ptr_arr) [0 ..< unat n]"
    using len vals by (intro nth_equalityI) simp_all
  let ?stepped = "st'\<lparr>indices := [n - 1]\<rparr>"
  let ?past = "?stepped\<lparr>indices := [0], current_axis := 1\<rparr>"
  have c2: "carry [n] 0 ?past = Inl (UndefinedBehaviour, ?past)"
    by (rule carry_past_the_end) simp
  have c1: "carry [n] 0 ?stepped = Inl (UndefinedBehaviour, ?past)"
    using ca c2 by (subst carry.simps) simp
  have nl: "next_lane [n] 0 st' = Inl (UndefinedBehaviour, ?past)"
    using ind ca pos c1 by (simp add: next_lane_def Let_def)
  have "roll_lanes [n] 0 [1] window min_periods ?init = Some (Inl (UndefinedBehaviour, ?past))"
    using sl st'(1) nl by (subst roll_lanes.simps) simp
  then have "roll_ndarray e ptr_arr [n] 0 window min_periods []
           = Some (Some UndefinedBehaviour, eng st', arr st')"
    by (simp add: roll_ndarray_def Let_def default_strides_one)
  with arr show ?thesis by simp
qed

lemma row_major_less: "list_all2 (<) is ds \<Longrightarrow> row_major ds is < prod_list ds"
proof (induction rule: list_all2_induct)
  case Nil
  then show ?case by simp
next
  case (Cons i "is" d ds)
  have "Suc i * prod_list ds \<le> d * prod_list ds"
    using Cons.hyps(1) by (intro mult_le_mono1) simp
  with Cons.IH show ?case by simp
qed

lemma row_major_inj:
  "list_all2 (<) is ds \<Longrightarrow> list_all2 (<) js ds \<Longrightarrow> row_major ds is = row_major ds js \<Longrightarrow> is = js"
proof (induction ds arbitrary: "is" js)
  case Nil
  then show ?case by simp
next
  case (Cons d ds)
  from Cons.prems(1) obtain i is' where i: "is = i # is'" "i < d" "list_all2 (<) is' ds"
    by (cases "is") auto
  from Cons.prems(2) obtain j js' where j: "js = j # js'" "j < d" "list_all2 (<) js' ds"
    by (cases js) auto
  let ?P = "prod_list ds"
  have r: "row_major ds is' < ?P" "row_major ds js' < ?P"
    using row_major_less i(3) j(3) by simp_all
  have eq: "i * ?P + row_major ds is' = j * ?P + row_major ds js'"
    using Cons.prems(3) i(1) j(1) by simp
  have "(i * ?P + row_major ds is') div ?P = i" "(j * ?P + row_major ds js') div ?P = j"
    using r by simp_all
  with eq have ij: "i = j" by simp
  with eq have "row_major ds is' = row_major ds js'" by simp
  with Cons.IH [OF i(3) j(3)] ij i(1) j(1) show ?case by simp
qed

lemma row_major_update:
  "k < length ds \<Longrightarrow> length is = length ds \<Longrightarrow>
   row_major ds (is[k := j]) = row_major ds (is[k := 0]) + j * prod_list (drop (Suc k) ds)"
proof (induction ds arbitrary: "is" k)
  case Nil
  then show ?case by simp
next
  case (Cons d ds)
  then obtain i is' where i: "is = i # is'" "length is' = length ds" by (cases "is") auto
  show ?case
  proof (cases k)
    case 0
    with i show ?thesis by simp
  next
    case (Suc k')
    with Cons.prems have "k' < length ds" by simp
    from Cons.IH [OF this i(2)] Suc i show ?thesis by simp
  qed
qed

lemma little_endian_less: "list_all2 (<) is ds \<Longrightarrow> little_endian ds is < prod_list ds"
proof (induction rule: list_all2_induct)
  case Nil
  then show ?case by simp
next
  case (Cons i "is" d ds)
  have "d * Suc (little_endian ds is) \<le> d * prod_list ds"
    using Cons.IH by (intro mult_le_mono2) simp
  with Cons.hyps(1) show ?case by simp
qed

lemma little_endian_inj:
  "list_all2 (<) is ds \<Longrightarrow> list_all2 (<) js ds \<Longrightarrow> little_endian ds is = little_endian ds js \<Longrightarrow> is = js"
proof (induction ds arbitrary: "is" js)
  case Nil
  then show ?case by simp
next
  case (Cons d ds)
  from Cons.prems(1) obtain i is' where i: "is = i # is'" "i < d" "list_all2 (<) is' ds"
    by (cases "is") auto
  from Cons.prems(2) obtain j js' where j: "js = j # js'" "j < d" "list_all2 (<) js' ds"
    by (cases js) auto
  have eq: "i + d * little_endian ds is' = j + d * little_endian ds js'"
    using Cons.prems(3) i(1) j(1) by simp
  have "(i + d * little_endian ds is') mod d = i" "(j + d * little_endian ds js') mod d = j"
    using i(2) j(2) by simp_all
  with eq have ij: "i = j" by simp
  with eq i(2) have "little_endian ds is' = little_endian ds js'" by simp
  with Cons.IH [OF i(3) j(3)] ij i(1) j(1) show ?case by simp
qed

lemma increment_Some:
  "list_all2 (<) is ds \<Longrightarrow> increment ds is = Some is' \<Longrightarrow>
   little_endian ds is' = Suc (little_endian ds is) \<and> list_all2 (<) is' ds"
proof (induction arbitrary: is' rule: list_all2_induct)
  case Nil
  then show ?case by simp
next
  case (Cons i "is" d ds)
  show ?case
  proof (cases "i = d - 1")
    case True
    with Cons.prems obtain is'' where s: "increment ds is = Some is''" "is' = 0 # is''"
      by auto
    from Cons.IH [OF s(1)] s(2) True Cons.hyps(1) show ?thesis by simp
  next
    case False
    with Cons.prems have "is' = Suc i # is" by simp
    with False Cons.hyps show ?thesis by simp
  qed
qed

lemma increment_None:
  "list_all2 (<) is ds \<Longrightarrow> increment ds is = None \<Longrightarrow> Suc (little_endian ds is) = prod_list ds"
proof (induction rule: list_all2_induct)
  case Nil
  then show ?case by simp
next
  case (Cons i "is" d ds)
  then have i: "i = d - 1" and n: "increment ds is = None"
    by (auto split: if_splits)
  from Cons.IH [OF n] have "prod_list ds = Suc (little_endian ds is)" by simp
  with i Cons.hyps(1) show ?case by simp
qed

lemma strides_loop_from:
  assumes "1 \<le> i" "i \<le> length shape"
    and "stride = of_nat (prod_list (drop (length shape - (i - 1)) (map unat shape)))"
  shows "strides_loop shape [i ..< length shape] stride acc
         = acc @ map (\<lambda>m. of_nat (prod_list (drop (length shape - m) (map unat shape)))) [i ..< length shape]"
  using assms
proof (induction "length shape - i" arbitrary: i stride acc)
  case 0
  then show ?case by simp
next
  case (Suc k)
  let ?n = "length shape"
  let ?g = "\<lambda>m. (of_nat (prod_list (drop (?n - m) (map unat shape))) :: size_t)"
  from Suc have lt: "i < ?n" by simp
  then have u: "[i ..< ?n] = i # [Suc i ..< ?n]" by (simp add: upt_conv_Cons)
  have d: "drop (?n - i) (map unat shape) = unat (shape ! (?n - i)) # drop (?n - (i - 1)) (map unat shape)"
  proof -
    have "?n - i < length (map unat shape)" using Suc.prems(1) lt by simp
    from Cons_nth_drop_Suc [OF this, symmetric]
    have "drop (?n - i) (map unat shape) = map unat shape ! (?n - i) # drop (Suc (?n - i)) (map unat shape)" .
    moreover have "Suc (?n - i) = ?n - (i - 1)" using Suc.prems(1) lt by simp
    moreover have "map unat shape ! (?n - i) = unat (shape ! (?n - i))" using Suc.prems(1) lt by simp
    ultimately show ?thesis by simp
  qed
  have g: "stride * shape ! (?n - i) = ?g i"
    unfolding Suc.prems(3) d by (simp add: mult.commute)
  have k: "k = ?n - Suc i" using Suc(2) by simp
  have "strides_loop shape [Suc i ..< ?n] (?g i) (acc @ [?g i])
        = (acc @ [?g i]) @ map ?g [Suc i ..< ?n]"
    using lt by (intro Suc(1) [OF k]) simp_all
  then show ?case
    using Suc.prems(1) g by (simp add: u Let_def)
qed

lemma default_strides_eq:
  assumes "shape \<noteq> []"
  shows "default_strides shape
         = rev (map (\<lambda>m. of_nat (prod_list (drop (length shape - m) (map unat shape))))
                  [0 ..< length shape])"
proof -
  let ?n = "length shape"
  let ?g = "\<lambda>m. (of_nat (prod_list (drop (?n - m) (map unat shape))) :: size_t)"
  have n: "1 \<le> ?n" using assms by (cases shape) simp_all
  then have u: "[0 ..< ?n] = 0 # [1 ..< ?n]" using assms by (simp add: upt_rec [of 0])
  have g0: "?g 0 = 1" by simp
  have "strides_loop shape [1 ..< ?n] 1 [1] = [1] @ map ?g [1 ..< ?n]"
    using n by (intro strides_loop_from) simp_all
  then have "strides_loop shape [0 ..< ?n] 1 [] = map ?g [0 ..< ?n]"
    using g0 by (simp add: u)
  then show ?thesis by (simp add: default_strides_def)
qed

lemma default_strides_nth:
  assumes "k < length shape"
  shows "default_strides shape ! k = of_nat (prod_list (drop (Suc k) (map unat shape)))"
    and "length (default_strides shape) = length shape"
proof -
  have ne: "shape \<noteq> []" using assms by auto
  show "length (default_strides shape) = length shape"
    by (simp add: default_strides_eq [OF ne])
  have "length shape - (length shape - Suc k) = Suc k" using assms by simp
  then show "default_strides shape ! k = of_nat (prod_list (drop (Suc k) (map unat shape)))"
    using assms by (simp add: default_strides_eq [OF ne] rev_nth)
qed

lemma row_major_sum:
  "length is = length ds \<Longrightarrow>
   row_major ds is = (\<Sum>k<length ds. is ! k * prod_list (drop (Suc k) ds))"
proof (induction ds arbitrary: "is")
  case Nil
  then show ?case by simp
next
  case (Cons d ds)
  then obtain i is' where i: "is = i # is'" "length is' = length ds" by (cases "is") auto
  show ?case
    using Cons.IH [OF i(2)] i(1) by (simp add: sum.lessThan_Suc_shift del: sum.lessThan_Suc)
qed

lemma foldl_sum_word:
  "foldl (\<lambda>acc i. acc + f i) a [0 ..< n] = a + (\<Sum>i<n. f i :: size_t)"
  by (induction n) (simp_all add: add.assoc)

lemma scalar_index_row_major:
  fixes idx shape strides :: "size_t list"
  assumes "length idx = length shape"
    and "\<And>k. k < length shape \<Longrightarrow> strides ! k = of_nat (prod_list (drop (Suc k) (map unat shape)))"
  shows "foldl (\<lambda>acc i. acc + idx ! i * strides ! i) 0 [0 ..< length shape]
         = of_nat (row_major (map unat shape) (map unat idx))"
proof -
  have "(\<Sum>k<length shape. idx ! k * strides ! k)
        = (\<Sum>k<length shape. of_nat (unat (idx ! k) * prod_list (drop (Suc k) (map unat shape))))"
    using assms(2) by (intro sum.cong) simp_all
  also have "\<dots> = of_nat (\<Sum>k<length shape. unat (idx ! k) * prod_list (drop (Suc k) (map unat shape)))"
    by simp
  also have "(\<Sum>k<length shape. unat (idx ! k) * prod_list (drop (Suc k) (map unat shape)))
        = (\<Sum>k<length (map unat shape). map unat idx ! k * prod_list (drop (Suc k) (map unat shape)))"
    using assms(1) by (intro sum.cong) simp_all
  also have "\<dots> = row_major (map unat shape) (map unat idx)"
    using assms(1) by (intro row_major_sum [symmetric]) simp
  finally have "(\<Sum>k<length shape. idx ! k * strides ! k)
        = of_nat (row_major (map unat shape) (map unat idx))" .
  moreover have "foldl (\<lambda>acc i. acc + idx ! i * strides ! i) 0 [0 ..< length shape]
        = 0 + (\<Sum>k<length shape. idx ! k * strides ! k)"
    by (rule foldl_sum_word)
  ultimately show ?thesis by simp
qed

lemma size_arr_of_prod: "size_arr_of shape = of_nat (prod_list (map unat shape))"
proof -
  have "foldl (\<lambda>acc i. acc * shape ! i) a [0 ..< length shape]
        = a * of_nat (prod_list (map unat shape))" for a :: size_t
  proof (induction shape arbitrary: a rule: rev_induct)
    case Nil
    then show ?case by simp
  next
    case (snoc s shape)
    have "foldl (\<lambda>acc i. acc * (shape @ [s]) ! i) a [0 ..< length shape]
          = foldl (\<lambda>acc i. acc * shape ! i) a [0 ..< length shape]"
      by (intro foldl_cong) (simp_all add: nth_append)
    with snoc show ?case by (simp add: mult.assoc mult.commute)
  qed
  then show ?thesis by (simp add: size_arr_of_def)
qed

lemma word_eq_pred: "(y :: size_t) \<noteq> 0 \<Longrightarrow> x = y - 1 \<longleftrightarrow> unat x = unat y - 1"
  by (simp add: word_unat_eq_iff unat_minus_one)

lemma unat_succ: "unat (x :: size_t) < unat (y :: size_t) \<Longrightarrow> unat (x + 1) = Suc (unat x)"
proof -
  assume "unat x < unat y"
  moreover have "unat y < 2 ^ 64" using unsigned_less [of y] by simp
  ultimately have "unat x + unat (1 :: size_t) < 2 ^ LENGTH(64)" by simp
  then have "unat (x + 1) = unat x + unat (1 :: size_t)" by (simp only: unat_add_lem)
  then show ?thesis by simp
qed

lemma take_Suc_update: "k < length xs \<Longrightarrow> take (Suc k) (xs[k := v]) = take k xs @ [v]"
  by (simp add: take_Suc_conv_app_nth)

lemma carry_increment:
  fixes shape :: "size_t list"
  assumes "length (indices st) = length shape" "axis < length shape"
    and "current_axis st \<le> length shape" "current_axis st \<noteq> axis"
    and "\<forall>s\<in>set shape. s \<noteq> 0"
    and "list_all2 (<) ((map unat (indices st))[axis := 0]) ((map unat shape)[axis := 1])"
  shows "case increment (drop (current_axis st) ((map unat shape)[axis := 1]))
                        (drop (current_axis st) ((map unat (indices st))[axis := 0])) of
      None \<Rightarrow> (\<exists>st'. carry shape axis st = Inl (UndefinedBehaviour, st')
                 \<and> arr st' = arr st \<and> eng st' = eng st)
    | Some I' \<Rightarrow> (\<exists>st'. carry shape axis st = Inr st' \<and> arr st' = arr st \<and> eng st' = eng st
         \<and> current_axis st' < length shape \<and> current_axis st' \<noteq> axis
         \<and> length (indices st') = length shape
         \<and> (map unat ((indices st')[current_axis st' := indices st' ! current_axis st' + 1]))[axis := 0]
             = take (current_axis st) ((map unat (indices st))[axis := 0]) @ I')"
  using assms
proof (induction "length shape - current_axis st" arbitrary: st rule: less_induct)
  case less
  let ?n = "length shape"
  let ?cur = "current_axis st"
  let ?ds = "(map unat shape)[axis := 1]"
  let ?is = "(map unat (indices st))[axis := 0]"
  note len = less.prems(1) and ax = less.prems(2) and cur = less.prems(3,4)
    and nz = less.prems(5) and box = less.prems(6)
  show ?case
  proof (cases "?cur = ?n")
    case True
    then have "carry shape axis st = Inl (UndefinedBehaviour, st)"
      by (intro carry_past_the_end) simp
    moreover have "drop ?cur ?ds = []" "drop ?cur ?is = []"
      using True len by simp_all
    ultimately show ?thesis by simp
  next
    case False
    with cur have lt: "?cur < ?n" by simp
    have dsn: "?ds ! ?cur = unat (shape ! ?cur)" and isn: "?is ! ?cur = unat (indices st ! ?cur)"
      using lt cur(2) len by simp_all
    have D: "drop ?cur ?ds = unat (shape ! ?cur) # drop (Suc ?cur) ?ds"
      using Cons_nth_drop_Suc [of ?cur ?ds] lt dsn by simp
    have I: "drop ?cur ?is = unat (indices st ! ?cur) # drop (Suc ?cur) ?is"
      using Cons_nth_drop_Suc [of ?cur ?is] lt len isn by simp
    have sn: "shape ! ?cur \<noteq> 0" using nz lt by simp
    have bd: "unat (indices st ! ?cur) < unat (shape ! ?cur)"
      using list_all2_nthD [OF box, of ?cur] lt len dsn isn by simp
    show ?thesis
    proof (cases "unat (indices st ! ?cur) = unat (shape ! ?cur) - 1")
      case ne: False
      then have c: "carry shape axis st = Inr st"
        using lt len word_eq_pred [OF sn, of "indices st ! ?cur"] by (subst carry.simps) simp
      have inc: "increment (drop ?cur ?ds) (drop ?cur ?is)
                 = Some (Suc (unat (indices st ! ?cur)) # drop (Suc ?cur) ?is)"
        unfolding D I using ne by simp
      have "(map unat ((indices st)[?cur := indices st ! ?cur + 1]))[axis := 0]
            = ?is[?cur := Suc (unat (indices st ! ?cur))]"
        using unat_succ [OF bd] cur(2) by (simp add: map_update list_update_swap [of axis ?cur])
      also have "\<dots> = take ?cur ?is @ Suc (unat (indices st ! ?cur)) # drop (Suc ?cur) ?is"
        using lt len by (intro upd_conv_take_nth_drop) simp
      finally show ?thesis
        using c inc lt cur(2) len by simp
    next
      case eq: True
      define nxt where "nxt = (if ?cur + 1 = axis then ?cur + 2 else ?cur + 1)"
      define st1 where "st1 = st\<lparr>indices := (indices st)[?cur := 0], current_axis := nxt\<rparr>"
      have c: "carry shape axis st = carry shape axis st1"
        using lt len eq word_eq_pred [OF sn, of "indices st ! ?cur"]
        by (subst carry.simps) (simp add: st1_def nxt_def)
      have nx: "nxt \<le> ?n" "nxt \<noteq> axis" "?cur < nxt"
        using lt ax by (auto simp: nxt_def)
      have is1: "(map unat (indices st1))[axis := 0] = ?is[?cur := 0]"
        using cur(2) by (simp add: st1_def map_update list_update_swap [of axis ?cur])
      have "list_all2 (<) (?is[?cur := 0]) (?ds[?cur := ?ds ! ?cur])"
        using box bd dsn by (rule_tac list_all2_update_cong) simp_all
      then have box1: "list_all2 (<) ((map unat (indices st1))[axis := 0]) ?ds"
        by (simp add: is1)
      have m: "?n - current_axis st1 < ?n - ?cur"
        using nx lt by (simp add: st1_def)
      have p1: "length (indices st1) = ?n" "current_axis st1 \<le> ?n" "current_axis st1 \<noteq> axis"
        using len nx by (simp_all add: st1_def)
      note ih = less.hyps [OF m p1(1) ax p1(2,3) nz box1]
      have dr: "drop nxt ((map unat (indices st1))[axis := 0]) = drop nxt ?is"
        using nx(3) by (simp add: is1)
      have tk: "take nxt ((map unat (indices st1))[axis := 0]) = take ?cur ?is @ replicate (nxt - ?cur) 0"
      proof (cases "?cur + 1 = axis")
        case False
        then have "nxt = Suc ?cur" by (simp add: nxt_def)
        then show ?thesis using lt len by (simp add: is1 take_Suc_update)
      next
        case True
        then have n2: "nxt = Suc (Suc ?cur)" by (simp add: nxt_def)
        have "take (Suc (Suc ?cur)) (?is[?cur := 0])
              = take (Suc ?cur) (?is[?cur := 0]) @ [?is[?cur := 0] ! Suc ?cur]"
          using True ax len by (intro take_Suc_conv_app_nth) simp
        also have "?is[?cur := 0] ! Suc ?cur = 0"
          using True ax len by simp
        finally show ?thesis using n2 lt len by (simp add: is1 take_Suc_update numeral_2_eq_2)
      qed
      have inc: "increment (drop ?cur ?ds) (drop ?cur ?is)
                 = map_option (\<lambda>x. replicate (nxt - ?cur) 0 @ x) (increment (drop nxt ?ds) (drop nxt ?is))"
      proof (cases "?cur + 1 = axis")
        case False
        then have "nxt = Suc ?cur" by (simp add: nxt_def)
        then show ?thesis unfolding D I using eq by (simp add: option.map_comp comp_def)
      next
        case True
        then have n2: "nxt = Suc (Suc ?cur)" by (simp add: nxt_def)
        have D1: "drop (Suc ?cur) ?ds = 1 # drop (Suc (Suc ?cur)) ?ds"
          using Cons_nth_drop_Suc [of "Suc ?cur" ?ds] True ax by simp
        have I1: "drop (Suc ?cur) ?is = 0 # drop (Suc (Suc ?cur)) ?is"
          using Cons_nth_drop_Suc [of "Suc ?cur" ?is] True ax len by simp
        show ?thesis unfolding D I D1 I1 n2 using eq by (simp add: option.map_comp comp_def numeral_2_eq_2)
      qed
      show ?thesis
      proof (cases "increment (drop nxt ?ds) (drop nxt ?is)")
        case None
        with ih dr obtain st' where "carry shape axis st1 = Inl (UndefinedBehaviour, st')"
          "arr st' = arr st1" "eng st' = eng st1"
          by (auto simp: st1_def)
        with c inc None show ?thesis by (simp add: st1_def)
      next
        case (Some I')
        with ih dr obtain st' where st': "carry shape axis st1 = Inr st'"
          "arr st' = arr st1" "eng st' = eng st1" "current_axis st' < ?n" "current_axis st' \<noteq> axis"
          "length (indices st') = ?n"
          "(map unat ((indices st')[current_axis st' := indices st' ! current_axis st' + 1]))[axis := 0]
             = take nxt ((map unat (indices st1))[axis := 0]) @ I'"
          by (auto simp: st1_def)
        with c inc Some tk show ?thesis by (simp add: st1_def)
      qed
    qed
  qed
qed

lemma box_shape:
  fixes shape :: "size_t list"
  assumes "\<forall>s\<in>set shape. s \<noteq> 0" "axis < length shape"
    and "list_all2 (<) (is[axis := 0]) ((map unat shape)[axis := 1])" "j < unat (shape ! axis)"
  shows "list_all2 (<) (is[axis := j]) (map unat shape)"
proof -
  have len: "length is = length shape"
    using assms(3) by (auto dest: list_all2_lengthD)
  have "\<And>k. k < length shape \<Longrightarrow> is[axis := j] ! k < unat (shape ! k)"
  proof -
    fix k assume k: "k < length shape"
    show "is[axis := j] ! k < unat (shape ! k)"
    proof (cases "k = axis")
      case True
      then show ?thesis using assms(4) k len by simp
    next
      case False
      then show ?thesis
        using list_all2_nthD [OF assms(3), of k] k len by simp
    qed
  qed
  then show ?thesis using len by (simp add: list_all2_conv_all_nth)
qed

lemma start_lane_row_major:
  fixes shape :: "size_t list"
  assumes len: "length (indices st0) = length shape" and ax: "axis < length shape"
    and nz: "\<forall>s\<in>set shape. s \<noteq> 0"
    and small: "prod_list (map unat shape) < 2 ^ 64"
    and box: "list_all2 (<) ((map unat (indices st0))[axis := 0]) ((map unat shape)[axis := 1])"
  shows "start_lane shape axis (default_strides shape) st0
         = Inr (st0\<lparr>eng := clear (eng st0),
                    scalar_index := of_nat (row_major (map unat shape) ((map unat (indices st0))[axis := 0])),
                    indices := (indices st0)[axis := 0]\<rparr>)"
proof -
  let ?idx = "(indices st0)[axis := 0]"
  let ?r = "row_major (map unat shape) ((map unat (indices st0))[axis := 0])"
  have pos: "0 < unat (shape ! axis)"
    using nz ax by (simp add: unat_gt_0)
  have "list_all2 (<) ((map unat (indices st0))[axis := 0]) (map unat shape)"
    using box_shape [OF nz ax _ pos, of "(map unat (indices st0))[axis := 0]"] box by simp
  then have lt: "?r < prod_list (map unat shape)" by (rule row_major_less)
  have si: "foldl (\<lambda>acc i. acc + ?idx ! i * default_strides shape ! i) 0 [0 ..< length shape] = of_nat ?r"
    using scalar_index_row_major [of ?idx shape "default_strides shape"] len default_strides_nth(1)
    by (simp add: map_update)
  have "(of_nat ?r :: size_t) < of_nat (prod_list (map unat shape))"
    using lt small by (simp add: word_less_nat_alt unat_of_nat64)
  then show ?thesis
    using len ax si by (simp add: start_lane_def Let_def size_arr_of_prod)
qed

lemma first_axis_props:
  assumes "Suc 0 < n" 
  shows "first_axis axis < n" "first_axis axis \<noteq> axis"
  using assms by (simp_all add: first_axis_def)

lemma next_lane_increment:
  fixes shape :: "size_t list"
  assumes len: "length (indices st0) = length shape" and ax: "axis < length shape"
    and n2: "Suc 0 < length shape"
    and ca: "current_axis st0 = first_axis axis"
    and nz: "\<forall>s\<in>set shape. s \<noteq> 0"
    and top: "indices st0 ! axis = shape ! axis"
    and box: "list_all2 (<) ((map unat (indices st0))[axis := 0]) ((map unat shape)[axis := 1])"
  shows "case increment ((map unat shape)[axis := 1]) ((map unat (indices st0))[axis := 0]) of
      None \<Rightarrow> (\<exists>st'. next_lane shape axis st0 = Inl (UndefinedBehaviour, st')
                 \<and> arr st' = arr st0 \<and> eng st' = eng st0)
    | Some J \<Rightarrow> (\<exists>st'. next_lane shape axis st0 = Inr (False, st') \<and> arr st' = arr st0
                 \<and> eng st' = eng st0 \<and> current_axis st' = first_axis axis
                 \<and> length (indices st') = length shape
                 \<and> (map unat (indices st'))[axis := 0] = J)"
proof -
  let ?fa = "first_axis axis"
  let ?ds = "(map unat shape)[axis := 1]"
  let ?is = "(map unat (indices st0))[axis := 0]"
  define st where "st = st0\<lparr>indices := (indices st0)[axis := indices st0 ! axis - 1]\<rparr>"
  note fa = first_axis_props [OF n2, of axis]
  have is1: "(map unat (indices st))[axis := 0] = ?is"
    by (simp add: st_def map_update)
  have l1: "length (indices st) = length shape" "current_axis st \<le> length shape"
    "current_axis st \<noteq> axis"
    using len ca fa by (simp_all add: st_def)
  have box1: "list_all2 (<) ((map unat (indices st))[axis := 0]) ?ds"
    using box is1 by simp
  note ci = carry_increment [OF l1(1) ax l1(2,3) nz box1]
  have cs: "current_axis st = ?fa" using ca by (simp add: st_def)
  have whole: "increment ?ds ?is
       = map_option (\<lambda>x. take ?fa ?is @ x) (increment (drop ?fa ?ds) (drop ?fa ?is))"
  proof (cases "axis = 0")
    case True
    have D: "?ds = 1 # drop (Suc 0) ?ds"
      using Cons_nth_drop_Suc [of 0 ?ds] True ax by simp
    have I: "?is = 0 # drop (Suc 0) ?is"
      using Cons_nth_drop_Suc [of 0 ?is] True ax len by simp
    have "increment ?ds ?is = increment (1 # drop (Suc 0) ?ds) (0 # drop (Suc 0) ?is)"
      using D I by simp
    also have "\<dots> = map_option ((#) 0) (increment (drop (Suc 0) ?ds) (drop (Suc 0) ?is))"
      by simp
    also have "take (Suc 0) ?is = [0]"
      using True ax len by (simp add: take_Suc_conv_app_nth)
    then have "map_option ((#) 0) (increment (drop (Suc 0) ?ds) (drop (Suc 0) ?is))
        = map_option (\<lambda>x. take ?fa ?is @ x) (increment (drop ?fa ?ds) (drop ?fa ?is))"
      using True by (simp add: first_axis_def)
    finally show ?thesis .
  next
    case False
    then show ?thesis by (simp add: first_axis_def option.map_ident)
  qed
  have pos: "0 < indices st0 ! axis"
    using top nz ax by (simp add: word_greater_zero_iff)
  have nl: "next_lane shape axis st0 =
      (case carry shape axis st of
         Inl fs \<Rightarrow> Inl fs
       | Inr st1 \<Rightarrow>
           if current_axis st1 < length shape
           then (if current_axis st1 \<ge> length (indices st1) then Inl (UndefinedBehaviour, st1)
                 else Inr (False,
                        st1\<lparr>indices := (indices st1)[current_axis st1 :=
                                           indices st1 ! current_axis st1 + 1],
                            current_axis := first_axis axis\<rparr>))
           else Inr (True, st1))"
  proof (cases "indices st ! ?fa = shape ! ?fa - 1")
    case True
    then show ?thesis
      using len ax pos fa cs l1(1) unfolding next_lane_def Let_def st_def [symmetric] by simp
  next
    case False
    then have "carry shape axis st = Inr st"
      using cs fa l1(1) by (subst carry.simps) simp
    moreover have "st\<lparr>indices := (indices st)[?fa := indices st ! ?fa + 1]\<rparr>
        = st\<lparr>indices := (indices st)[?fa := indices st ! ?fa + 1], current_axis := ?fa\<rparr>"
      using cs by simp
    ultimately show ?thesis
      using False len ax pos fa cs l1(1) unfolding next_lane_def Let_def st_def [symmetric]
      by simp
  qed
  show ?thesis
  proof (cases "increment (drop ?fa ?ds) (drop ?fa ?is)")
    case None
    with ci is1 cs obtain st' where "carry shape axis st = Inl (UndefinedBehaviour, st')"
      "arr st' = arr st" "eng st' = eng st"
      by auto
    then show ?thesis using nl whole None by (simp add: st_def)
  next
    case (Some I')
    with ci is1 cs obtain st' where st': "carry shape axis st = Inr st'"
      "arr st' = arr st" "eng st' = eng st" "current_axis st' < length shape"
      "length (indices st') = length shape"
      "(map unat ((indices st')[current_axis st' := indices st' ! current_axis st' + 1]))[axis := 0]
         = take ?fa ?is @ I'"
      by auto
    then show ?thesis using nl whole Some by (simp add: st_def)
  qed
qed

lemma box_proj:
  "list_all2 (<) x ds \<Longrightarrow> list_all2 (<) (x[axis := 0 :: nat]) (ds[axis := 1])"
  by (rule list_all2_update_cong) simp_all

lemma roll_one_lane:
  fixes shape :: "size_t list"
  assumes inv: "lanes_inv c (unat window) (unat min_periods) shape axis orig k st"
    and wf: "well_formed c" and ax: "axis < length shape"
    and nz: "\<forall>s\<in>set shape. s \<noteq> 0"
    and small: "prod_list (map unat shape) < 2 ^ 64"
    and lo: "length orig = prod_list (map unat shape)"
  shows "\<exists>st1 st2. start_lane shape axis (default_strides shape) st = Inr st1
     \<and> roll_axis shape axis (default_strides shape) window min_periods st1 = Inr st2
     \<and> indices st2 = (indices st)[axis := shape ! axis]
     \<and> current_axis st2 = first_axis axis
     \<and> lanes_done c (unat window) (unat min_periods) (map unat shape) axis orig (Suc k) (arr st2)
     \<and> (\<exists>wl. tracks c (eng st2) wl)"
proof -
  let ?ds = "map unat shape"
  let ?ds' = "?ds[axis := 1]"
  let ?is = "(map unat (indices st))[axis := 0]"
  let ?L = "unat (shape ! axis)"
  let ?P = "prod_list ?ds"
  let ?W = "unat window" and ?M = "unat min_periods"
  let ?str = "default_strides shape"
  from inv have len: "length (indices st) = length shape" and ca: "current_axis st = first_axis axis"
    and box: "list_all2 (<) ?is ?ds'" and k: "little_endian ?ds' ?is = k"
    and dn: "lanes_done c ?W ?M ?ds axis orig k (arr st)"
    and tr: "\<exists>wl. tracks c (eng st) wl"
    by (simp_all add: lanes_inv_def)
  from dn have la: "length (arr st) = ?P"
    and old: "\<And>x. list_all2 (<) x ?ds \<Longrightarrow> arr st ! row_major ?ds x =
            (if little_endian ?ds' (x[axis := 0]) < k
             then rolled c ?W ?M (lane ?ds axis orig x) (x ! axis)
             else orig ! row_major ?ds x)"
    using lo by (simp_all add: lanes_done_def)
  define st1 where "st1 = st\<lparr>eng := clear (eng st),
      scalar_index := of_nat (row_major ?ds ?is), indices := (indices st)[axis := 0]\<rparr>"
  define xs where "xs = lane ?ds axis (arr st) ?is"
  define pos where "pos = (\<lambda>j. row_major ?ds (?is[axis := j]))"
  have sl: "start_lane shape axis ?str st = Inr st1"
    unfolding st1_def by (rule start_lane_row_major [OF len ax nz small box])
  have lis: "length ?is = length ?ds" using len by simp
  have bj: "\<And>j. j < ?L \<Longrightarrow> list_all2 (<) (?is[axis := j]) ?ds"
    using box_shape [OF nz ax _ _, of ?is] box by simp
  have pl: "\<And>j. j < ?L \<Longrightarrow> pos j < ?P"
    unfolding pos_def by (rule row_major_less) (rule bj)
  have sa: "?str ! axis = of_nat (prod_list (drop (Suc axis) ?ds))"
    by (rule default_strides_nth(1) [OF ax])
  have lstr: "length ?str = length shape"
    by (rule default_strides_nth(2) [OF ax])
  have is0: "?is[axis := 0] = ?is" by simp
  have pj: "\<And>j. pos j = row_major ?ds ?is + j * prod_list (drop (Suc axis) ?ds)"
  proof -
    fix j
    have "axis < length ?ds" "length ?is = length ?ds" using ax lis by simp_all
    then have "row_major ?ds (?is[axis := j])
       = row_major ?ds (?is[axis := 0]) + j * prod_list (drop (Suc axis) ?ds)"
      by (rule row_major_update)
    then show "pos j = row_major ?ds ?is + j * prod_list (drop (Suc axis) ?ds)"
      unfolding pos_def by (simp only: is0)
  qed
  obtain l where tc: "tracks c (clear (eng st)) ([], l)"
    using tr tracks_clear by blast
  have inv0: "lane_inv c window min_periods xs pos axis (?str ! axis) st1 0 st1"
    using tc by (auto simp: lane_inv_def st1_def)
  have a1: "axis < length (indices st1)" "axis < length shape" "axis < length ?str"
    using ax len lstr by (simp_all add: st1_def)
  have a2: "0 \<le> ?L" "length xs = ?L" "?L = unat (shape ! axis)"
    using ax by (simp_all add: xs_def lane_def)
  have p1: "\<And>j. j < ?L \<Longrightarrow> unat (scalar_index st1 + of_nat j * ?str ! axis) = pos j"
  proof -
    fix j assume j: "j < ?L"
    have "scalar_index st1 + of_nat j * ?str ! axis = of_nat (pos j)"
      by (simp add: st1_def sa pj)
    moreover have "pos j < 2 ^ 64" using pl [OF j] small by simp
    ultimately show "unat (scalar_index st1 + of_nat j * ?str ! axis) = pos j"
      by (simp only: unat_of_nat64)
  qed
  have p2: "\<And>j. j < ?L \<Longrightarrow> pos j < length (arr st1)"
    using pl la by (simp add: st1_def)
  have p3: "inj_on pos {..<?L}"
  proof (rule inj_onI)
    fix i j assume "i \<in> {..<?L}" "j \<in> {..<?L}" "pos i = pos j"
    then have "?is[axis := i] = ?is[axis := j]"
      unfolding pos_def using bj row_major_inj by blast
    then have "?is[axis := i] ! axis = ?is[axis := j] ! axis" by simp
    then show "i = j" using ax len by simp
  qed
  have p4: "\<And>j. j < ?L \<Longrightarrow> arr st1 ! pos j = xs ! j"
    using ax by (simp add: st1_def xs_def lane_def pos_def)
  have "\<exists>st'. roll_axis shape axis ?str window min_periods st1 = Inr st'
     \<and> lane_inv c window min_periods xs pos axis (?str ! axis) st1 ?L st'"
    by (rule roll_axis_lane [OF inv0 wf a1 a2 p1 p2 p3 p4])
  then obtain st2 where ra: "roll_axis shape axis ?str window min_periods st1 = Inr st2"
    and li: "lane_inv c window min_periods xs pos axis (?str ! axis) st1 ?L st2"
    by blast
  from li have ind: "indices st2 = (indices st)[axis := shape ! axis]"
    and ca2: "current_axis st2 = first_axis axis"
    and la2: "length (arr st2) = ?P"
    and new: "\<And>j. j < ?L \<Longrightarrow> arr st2 ! pos j = rolled c ?W ?M xs j"
    and same: "\<And>p. p < ?P \<Longrightarrow> (\<forall>j<?L. pos j \<noteq> p) \<Longrightarrow> arr st2 ! p = arr st ! p"
    and tr2: "\<exists>l. tracks c (eng st2) (drop (?L - ?W) (take ?L xs), l)"
    using ca la by (simp_all add: lane_inv_def st1_def)
  have xo: "\<And>x. list_all2 (<) x ?ds \<Longrightarrow> x[axis := 0] = ?is \<Longrightarrow> lane ?ds axis orig x = xs"
  proof -
    fix x assume x: "list_all2 (<) x ?ds" "x[axis := 0] = ?is"
    have "\<And>j. j < ?L \<Longrightarrow> orig ! row_major ?ds (x[axis := j]) = arr st ! row_major ?ds (?is[axis := j])"
    proof -
      fix j assume j: "j < ?L"
      have e: "x[axis := j] = ?is[axis := j]"
        using x(2) by (metis list_update_overwrite)
      have "little_endian ?ds' ((?is[axis := j])[axis := 0]) = k"
        using k by simp
      then show "orig ! row_major ?ds (x[axis := j]) = arr st ! row_major ?ds (?is[axis := j])"
        using old [OF bj [OF j]] e by simp
    qed
    then show "lane ?ds axis orig x = xs"
      using ax by (simp add: lane_def xs_def)
  qed
  have "\<And>x. list_all2 (<) x ?ds \<Longrightarrow> arr st2 ! row_major ?ds x =
            (if little_endian ?ds' (x[axis := 0]) < Suc k
             then rolled c ?W ?M (lane ?ds axis orig x) (x ! axis)
             else orig ! row_major ?ds x)"
  proof -
    fix x assume x: "list_all2 (<) x ?ds"
    have lx: "length x = length shape" using x by (auto dest: list_all2_lengthD)
    have xa: "x ! axis < ?L" using list_all2_nthD [OF x, of axis] ax lx by simp
    have bx: "list_all2 (<) (x[axis := 0]) ?ds'" using x by (rule box_proj)
    show "arr st2 ! row_major ?ds x =
            (if little_endian ?ds' (x[axis := 0]) < Suc k
             then rolled c ?W ?M (lane ?ds axis orig x) (x ! axis)
             else orig ! row_major ?ds x)"
    proof (cases "little_endian ?ds' (x[axis := 0]) = k")
      case True
      then have e: "x[axis := 0] = ?is"
        using little_endian_inj [OF bx box] k by simp
      then have "?is[axis := x ! axis] = x"
        by (metis list_update_overwrite list_update_id)
      then have "row_major ?ds x = pos (x ! axis)" by (simp add: pos_def)
      then show ?thesis
        using new [OF xa] xo [OF x e] True by simp
    next
      case False
      have "\<forall>j<?L. pos j \<noteq> row_major ?ds x"
      proof (intro allI impI notI)
        fix j assume j: "j < ?L" "pos j = row_major ?ds x"
        then have "?is[axis := j] = x"
          unfolding pos_def using row_major_inj [OF bj [OF j(1)] x] by simp
        then have "x[axis := 0] = ?is" by (metis list_update_overwrite)
        with False k show False by simp
      qed
      then have "arr st2 ! row_major ?ds x = arr st ! row_major ?ds x"
        using same row_major_less [OF x] by simp
      then show ?thesis using old [OF x] False by (simp add: less_Suc_eq)
    qed
  qed
  then have "lanes_done c ?W ?M ?ds axis orig (Suc k) (arr st2)"
    using la2 lo by (simp add: lanes_done_def)
  then show ?thesis
    using sl ra ind ca2 tr2 by blast
qed

lemma roll_lanes_all:
  fixes shape :: "size_t list"
  assumes inv: "lanes_inv c (unat window) (unat min_periods) shape axis orig k st"
    and wf: "well_formed c" and ax: "axis < length shape" and n2: "Suc 0 < length shape"
    and nz: "\<forall>s\<in>set shape. s \<noteq> 0"
    and small: "prod_list (map unat shape) < 2 ^ 64"
    and lo: "length orig = prod_list (map unat shape)"
  shows "\<exists>st'. roll_lanes shape axis (default_strides shape) window min_periods st
           = Some (Inl (UndefinedBehaviour, st'))
     \<and> lanes_done c (unat window) (unat min_periods) (map unat shape) axis orig
          (prod_list ((map unat shape)[axis := 1])) (arr st')"
  using inv
proof (induction "prod_list ((map unat shape)[axis := 1]) - k" arbitrary: k st rule: less_induct)
  case less
  let ?ds = "map unat shape"
  let ?ds' = "?ds[axis := 1]"
  let ?is = "(map unat (indices st))[axis := 0]"
  let ?W = "unat window" and ?M = "unat min_periods"
  let ?str = "default_strides shape"
  note inv = less.prems
  from inv have len: "length (indices st) = length shape"
    and box: "list_all2 (<) ?is ?ds'" and k: "little_endian ?ds' ?is = k"
    by (simp_all add: lanes_inv_def)
  from roll_one_lane [OF inv wf ax nz small lo] obtain st1 st2 where
    sl: "start_lane shape axis ?str st = Inr st1"
    and ra: "roll_axis shape axis ?str window min_periods st1 = Inr st2"
    and ind: "indices st2 = (indices st)[axis := shape ! axis]"
    and ca2: "current_axis st2 = first_axis axis"
    and dn: "lanes_done c ?W ?M ?ds axis orig (Suc k) (arr st2)"
    and tr: "\<exists>wl. tracks c (eng st2) wl"
    by blast
  have l2: "length (indices st2) = length shape" using ind len by simp
  have top: "indices st2 ! axis = shape ! axis" using ind len ax by simp
  have is2: "(map unat (indices st2))[axis := 0] = ?is" by (simp add: ind map_update)
  have box2: "list_all2 (<) ((map unat (indices st2))[axis := 0]) ?ds'"
    using box by (simp only: is2)
  note nl = next_lane_increment [OF l2 ax n2 ca2 nz top box2]
  show ?case
  proof (cases "increment ?ds' ?is")
    case None
    with nl is2 obtain st' where st': "next_lane shape axis st2 = Inl (UndefinedBehaviour, st')"
      "arr st' = arr st2"
      by auto
    have "Suc k = prod_list ?ds'"
      using increment_None [OF box None] k by simp
    moreover have "roll_lanes shape axis ?str window min_periods st = Some (Inl (UndefinedBehaviour, st'))"
      using sl ra st'(1) by (subst roll_lanes.simps) simp
    ultimately show ?thesis using dn st'(2) by auto
  next
    case (Some J)
    with nl is2 obtain st3 where st3: "next_lane shape axis st2 = Inr (False, st3)"
      "arr st3 = arr st2" "eng st3 = eng st2" "current_axis st3 = first_axis axis"
      "length (indices st3) = length shape" "(map unat (indices st3))[axis := 0] = J"
      by auto
    from increment_Some [OF box Some] k have J: "little_endian ?ds' J = Suc k" "list_all2 (<) J ?ds'"
      by simp_all
    have inv3: "lanes_inv c ?W ?M shape axis orig (Suc k) st3"
      using st3 J dn tr by (simp add: lanes_inv_def)
    have "k < prod_list ?ds'"
      using little_endian_less [OF box] k by simp
    then have m: "prod_list ?ds' - Suc k < prod_list ?ds' - k" by simp
    from less.hyps [OF m inv3] obtain st' where
      st': "roll_lanes shape axis ?str window min_periods st3 = Some (Inl (UndefinedBehaviour, st'))"
        "lanes_done c ?W ?M ?ds axis orig (prod_list ?ds') (arr st')"
      by blast
    have "roll_lanes shape axis ?str window min_periods st = Some (Inl (UndefinedBehaviour, st'))"
      using sl ra st3(1) st'(1) by (subst roll_lanes.simps) simp
    with st'(2) show ?thesis by blast
  qed
qed

lemma little_endian_zero: "little_endian ds (replicate n 0) = 0"
  by (induction ds arbitrary: n) (case_tac n; simp)+

lemma replicate_update_same: "(replicate n x)[i := x] = replicate n x"
  by (induction n arbitrary: i) (auto split: nat.split)

text \<open>
  Two dimensions or more, default strides, a buffer of as many elements as the shape
  has, every extent non-zero: the call ends in the out-of-range read of the carry loop,
  and by then the element at every index vector \<open>x\<close> inside the shape holds the statistic
  of its trailing window in the lane of the original buffer through \<open>x\<close>, or NaN below
  \<open>min_periods\<close>.
\<close>

lemma roll_ndarray_every_lane:
  fixes shape :: "size_t list"
  assumes t: "tracks c e wl" and wf: "well_formed c"
    and ax: "axis < length shape" and n2: "Suc 0 < length shape"
    and nz: "\<forall>s\<in>set shape. s \<noteq> 0"
    and small: "prod_list (map unat shape) < 2 ^ 64"
    and lo: "length ptr_arr = prod_list (map unat shape)"
  shows "\<exists>e' a. roll_ndarray e ptr_arr shape axis window min_periods []
           = Some (Some UndefinedBehaviour, e', a)
     \<and> length a = length ptr_arr
     \<and> (\<forall>x. list_all2 (<) x (map unat shape) \<longrightarrow>
          a ! row_major (map unat shape) x
            = rolled c (unat window) (unat min_periods)
                (lane (map unat shape) axis ptr_arr x) (x ! axis))"
proof -
  let ?ds = "map unat shape"
  let ?ds' = "?ds[axis := 1]"
  let ?W = "unat window" and ?M = "unat min_periods"
  let ?init = "\<lparr>eng = e, arr = ptr_arr, indices = replicate (length shape) (0 :: size_t),
      scalar_index = 0 :: size_t, current_axis = first_axis axis\<rparr>"
  have z: "(map unat (indices ?init))[axis := 0] = replicate (length shape) 0"
    by (simp add: replicate_update_same)
  have "\<And>k. k < length shape \<Longrightarrow> 0 < ?ds' ! k"
    using nz ax by (auto simp: nth_list_update unat_gt_0)
  then have box: "list_all2 (<) ((map unat (indices ?init))[axis := 0]) ?ds'"
    unfolding z by (simp add: list_all2_conv_all_nth)
  have le: "little_endian ?ds' ((map unat (indices ?init))[axis := 0]) = 0"
    unfolding z by (rule little_endian_zero)
  have "lanes_done c ?W ?M ?ds axis ptr_arr 0 ptr_arr"
    by (simp add: lanes_done_def)
  moreover have "\<exists>wl. tracks c (eng ?init) wl"
    using t by (intro exI [of _ wl]) simp
  ultimately have inv: "lanes_inv c ?W ?M shape axis ptr_arr 0 ?init"
    using box le unfolding lanes_inv_def by simp
  from roll_lanes_all [OF inv wf ax n2 nz small lo] obtain st' where
    rl: "roll_lanes shape axis (default_strides shape) window min_periods ?init
           = Some (Inl (UndefinedBehaviour, st'))"
    and dn: "lanes_done c ?W ?M ?ds axis ptr_arr (prod_list ?ds') (arr st')"
    by blast
  have r: "roll_ndarray e ptr_arr shape axis window min_periods []
           = Some (Some UndefinedBehaviour, eng st', arr st')"
    using n2 rl by (auto simp: roll_ndarray_def Let_def)
  have "\<And>x. list_all2 (<) x ?ds \<Longrightarrow> little_endian ?ds' (x[axis := 0]) < prod_list ?ds'"
    by (rule little_endian_less) (rule box_proj)
  then have "\<forall>x. list_all2 (<) x ?ds \<longrightarrow>
          arr st' ! row_major ?ds x = rolled c ?W ?M (lane ?ds axis ptr_arr x) (x ! axis)"
    using dn by (simp add: lanes_done_def)
  moreover have "length (arr st') = length ptr_arr"
    using dn by (simp add: lanes_done_def)
  ultimately show ?thesis using r by blast
qed

text \<open>
  Any number of dimensions: with default strides, a buffer of as many elements as the
  shape has and every extent non-zero, the call ends in the out-of-range read of the
  carry loop, and by then the element at every index vector \<open>x\<close> inside the shape holds
  the statistic of its trailing window in the lane of the original buffer through \<open>x\<close>,
  or NaN below \<open>min_periods\<close>.
\<close>

lemma roll_ndarray_lanes:
  fixes shape :: "size_t list"
  assumes t: "tracks c e wl" and wf: "well_formed c"
    and ax: "axis < length shape"
    and nz: "\<forall>s\<in>set shape. s \<noteq> 0"
    and small: "prod_list (map unat shape) < 2 ^ 64"
    and lo: "length ptr_arr = prod_list (map unat shape)"
  shows "\<exists>e' a. roll_ndarray e ptr_arr shape axis window min_periods []
           = Some (Some UndefinedBehaviour, e', a)
     \<and> length a = length ptr_arr
     \<and> (\<forall>x. list_all2 (<) x (map unat shape) \<longrightarrow>
          a ! row_major (map unat shape) x
            = rolled c (unat window) (unat min_periods)
                (lane (map unat shape) axis ptr_arr x) (x ! axis))"
proof (cases "Suc 0 < length shape")
  case True
  then show ?thesis
    by (rule roll_ndarray_every_lane [OF t wf ax _ nz small lo])
next
  case False
  with ax obtain n where s: "shape = [n]" and a0: "axis = 0"
    by (cases shape) auto
  have n: "n \<noteq> 0" "length ptr_arr = unat n"
    using nz lo by (simp_all add: s)
  from roll_ndarray_one_dimension [OF t wf n] obtain e' where
    r: "roll_ndarray e ptr_arr [n] 0 window min_periods []
           = Some (Some UndefinedBehaviour, e',
               map (rolled c (unat window) (unat min_periods) ptr_arr) [0 ..< unat n])"
    by blast
  have "\<And>x. list_all2 (<) x [unat n] \<Longrightarrow>
      map (rolled c (unat window) (unat min_periods) ptr_arr) [0 ..< unat n] ! row_major [unat n] x
        = rolled c (unat window) (unat min_periods) (lane [unat n] 0 ptr_arr x) (x ! 0)"
  proof -
    fix x assume "list_all2 (<) x [unat n]"
    then obtain i where x: "x = [i]" "i < unat n"
      by (auto simp: list_all2_Cons2)
    have "lane [unat n] 0 ptr_arr x = map ((!) ptr_arr) [0 ..< length ptr_arr]"
      by (simp add: lane_def x n(2))
    then have "lane [unat n] 0 ptr_arr x = ptr_arr"
      by (simp only: map_nth)
    then show "map (rolled c (unat window) (unat min_periods) ptr_arr) [0 ..< unat n] ! row_major [unat n] x
        = rolled c (unat window) (unat min_periods) (lane [unat n] 0 ptr_arr x) (x ! 0)"
      using x by simp
  qed
  then show ?thesis
    using r n(2) by (simp add: s a0)
qed

declare fsqrt.simps [code del] fpow15.simps [code del]

declare roll_lanes.simps [code]

text \<open>
  Claim C6 on the example of the repository: a 4 by 3 buffer rolled along axis 0 with
  window 3 and at least 2 valid values, default strides. Every lane is written as
  documented, and the call then ends in the out-of-range read of the carry loop rather
  than in a return.
\<close>

theorem roll_ndarray_usage_example:
  "roll_ndarray (MeanE (new_mean True))
     [Num 2, Num 3, Num 1, Num 3, Num (7 / 2), NaN, NaN, Num 4, Num 2, Num (- 3), NaN, NaN]
     [4, 3] 0 3 2 []
   = Some (Some UndefinedBehaviour,
       MeanE \<lparr>skip_nan = True, num_vals_nan = 2, num_vals_notnan = 1,
              unnormalized_moments = [Num 2], vecs_in_window = [[NaN, Num 2, NaN]], num_moments = 1\<rparr>,
       [NaN, NaN, NaN, Num (5 / 2), Num (13 / 4), NaN, Num (5 / 2), Num (7 / 2), Num (3 / 2),
        Num 0, Num (15 / 4), NaN])"
  by code_simp

end
